theory Spec2Isabelle
  imports Complex_Main "HOL-Library.Multiset" "HOL-Library.Product_Lexorder"
begin

section \<open>Strings\<close>

text \<open>
  A Python \<open>str\<close> is a sequence of Unicode code points; a code point is a natural
  number here, so that \<open>length\<close> counts what \<open>len\<close> counts.
\<close>

type_synonym str = "nat list"

definition ascii :: "string \<Rightarrow> str" where
  "ascii s = map of_char s"

section \<open>Binary floating point\<close>

text \<open>
  Python's \<open>float\<close> is the IEEE 754 double. A double is modelled by the rational
  number it denotes, and an arithmetic operation on doubles by the exact operation
  followed by \<open>rnd\<close>: rounding to the nearest number with a 53-bit significand, ties
  to the even significand. The exponent is not bounded: the operands in this program
  are lengths, quotients of lengths and thresholds, far from overflow and underflow.
\<close>

text \<open>Doubling the numerator until the quotient \<open>P / Q\<close> is at least 1.\<close>

function scale_up :: "int \<Rightarrow> int \<Rightarrow> nat \<Rightarrow> int \<times> nat" where
  "scale_up P Q a = (if 0 < P \<and> P < Q then scale_up (2 * P) Q (Suc a) else (P, a))"
  by pat_completeness auto
termination
  by (relation "measure (\<lambda>(P, Q, a). nat (Q - P))") auto

text \<open>Doubling the denominator until the quotient \<open>P / Q\<close> is below 2.\<close>

function scale_down :: "int \<Rightarrow> int \<Rightarrow> nat \<Rightarrow> int \<times> nat" where
  "scale_down P Q b = (if 0 < Q \<and> 2 * Q \<le> P then scale_down P (2 * Q) (Suc b) else (Q, b))"
  by pat_completeness auto
termination
  by (relation "measure (\<lambda>(P, Q, b). nat (P - Q))") auto

declare scale_up.simps [simp del] scale_down.simps [simp del]

text \<open>The integer nearest to \<open>P / Q\<close>, ties to even.\<close>

definition round_half_even :: "int \<Rightarrow> int \<Rightarrow> int" where
  "round_half_even P Q =
     (let n = P div Q; r = P mod Q
      in if 2 * r < Q then n else if Q < 2 * r then n + 1 else if even n then n else n + 1)"

text \<open>
  \<open>p / q\<close> with \<open>p, q > 0\<close>: after scaling, \<open>P = p * 2^a\<close> and \<open>Q = q * 2^52 * 2^b\<close> with
  \<open>Q \<le> P < 2 * Q\<close>, so \<open>P * 2^52 / Q\<close> lies in \<open>[2^52, 2^53)\<close>; its rounding is the
  significand.
\<close>

definition rnd_pos :: "int \<Rightarrow> int \<Rightarrow> rat" where
  "rnd_pos p q =
     (case scale_up p (q * 2 ^ 52) 0 of (P, a) \<Rightarrow>
        case scale_down P (q * 2 ^ 52) 0 of (Q, b) \<Rightarrow>
          of_int (round_half_even (P * 2 ^ 52) Q * 2 ^ b) / of_int (2 ^ a))"

definition rnd :: "rat \<Rightarrow> rat" where
  "rnd x = (case quotient_of x of (p, q) \<Rightarrow>
     if p = 0 then 0 else if 0 < p then rnd_pos p q else - rnd_pos (- p) q)"

subsection \<open>Rounding is monotone\<close>

lemma scale_up_result:
  assumes "scale_up P Q a = (P', a')" "0 < P" "0 < Q"
  shows "\<exists>n. a' = a + n \<and> P' = P * 2 ^ n \<and> Q \<le> P'"
  using assms
proof (induction P Q a rule: scale_up.induct)
  case (1 P Q a)
  show ?case
  proof (cases "P < Q")
    case True
    with "1.prems" have "scale_up (2 * P) Q (Suc a) = (P', a')"
      by (subst (asm) scale_up.simps) simp
    from "1.IH"[OF _ this] True "1.prems"
    obtain n where "a' = Suc a + n" "P' = 2 * P * 2 ^ n" "Q \<le> P'"
      by auto
    then have "a' = a + Suc n \<and> P' = P * 2 ^ Suc n \<and> Q \<le> P'"
      by simp
    then show ?thesis by blast
  next
    case False
    with "1.prems" have "P' = P" "a' = a"
      by (subst (asm) scale_up.simps, simp)+
    with False have "a' = a + 0 \<and> P' = P * 2 ^ 0 \<and> Q \<le> P'"
      by simp
    then show ?thesis by blast
  qed
qed

lemma scale_down_result:
  assumes "scale_down P Q b = (Q', b')" "0 < Q" "Q \<le> P"
  shows "\<exists>n. b' = b + n \<and> Q' = Q * 2 ^ n \<and> Q' \<le> P \<and> P < 2 * Q'"
  using assms
proof (induction P Q b rule: scale_down.induct)
  case (1 P Q b)
  show ?case
  proof (cases "2 * Q \<le> P")
    case True
    with "1.prems" have "scale_down P (2 * Q) (Suc b) = (Q', b')"
      by (subst (asm) scale_down.simps) simp
    from "1.IH"[OF _ this] True "1.prems"
    obtain n where "b' = Suc b + n" "Q' = 2 * Q * 2 ^ n" "Q' \<le> P" "P < 2 * Q'"
      by auto
    then have "b' = b + Suc n \<and> Q' = Q * 2 ^ Suc n \<and> Q' \<le> P \<and> P < 2 * Q'"
      by simp
    then show ?thesis by blast
  next
    case False
    with "1.prems" have "Q' = Q" "b' = b"
      by (subst (asm) scale_down.simps, simp)+
    with False "1.prems" have "b' = b + 0 \<and> Q' = Q * 2 ^ 0 \<and> Q' \<le> P \<and> P < 2 * Q'"
      by simp
    then show ?thesis by blast
  qed
qed

text \<open>The same rounding on a rational argument, to reason with.\<close>

definition nearest_even :: "rat \<Rightarrow> int" where
  "nearest_even y =
     (let n = \<lfloor>y\<rfloor>; r = y - of_int n
      in if r < 1 / 2 then n else if 1 / 2 < r then n + 1 else if even n then n else n + 1)"

lemma round_half_even_eq:
  assumes "0 < Q"
  shows "round_half_even P Q = nearest_even (of_int P / of_int Q)"
proof -
  let ?y = "of_int P / of_int Q :: rat"
  have fl: "\<lfloor>?y\<rfloor> = P div Q"
    by (rule floor_divide_of_int_eq)
  have "of_int P = of_int (P div Q) * of_int Q + (of_int (P mod Q) :: rat)"
    by (metis of_int_add of_int_mult div_mult_mod_eq)
  then have r: "?y - of_int (P div Q) = of_int (P mod Q) / of_int Q"
    using assms by (simp add: field_simps)
  have lt: "of_int (P mod Q) / of_int Q < (1 / 2 :: rat) \<longleftrightarrow> 2 * (P mod Q) < Q"
  proof -
    have "of_int (P mod Q) / of_int Q < (1 / 2 :: rat) \<longleftrightarrow> (of_int (2 * (P mod Q)) :: rat) < of_int Q"
      using assms by (simp add: field_simps)
    then show ?thesis by (simp only: of_int_less_iff)
  qed
  have gt: "(1 / 2 :: rat) < of_int (P mod Q) / of_int Q \<longleftrightarrow> Q < 2 * (P mod Q)"
  proof -
    have "(1 / 2 :: rat) < of_int (P mod Q) / of_int Q \<longleftrightarrow> (of_int Q :: rat) < of_int (2 * (P mod Q))"
      using assms by (simp add: field_simps)
    then show ?thesis by (simp only: of_int_less_iff)
  qed
  show ?thesis
    unfolding round_half_even_def nearest_even_def Let_def fl r lt gt ..
qed

lemma nearest_even_bounds: "\<lfloor>y\<rfloor> \<le> nearest_even y" "nearest_even y \<le> \<lfloor>y\<rfloor> + 1"
  by (simp_all add: nearest_even_def Let_def)

lemma nearest_even_mono:
  assumes "y \<le> y'"
  shows "nearest_even y \<le> nearest_even y'"
proof (cases "\<lfloor>y\<rfloor> = \<lfloor>y'\<rfloor>")
  case True
  with assms have "y - of_int \<lfloor>y\<rfloor> \<le> y' - of_int \<lfloor>y'\<rfloor>"
    by simp
  with True show ?thesis
    by (auto simp: nearest_even_def Let_def)
next
  case False
  with assms have "\<lfloor>y\<rfloor> < \<lfloor>y'\<rfloor>"
    using floor_mono[OF assms] by simp
  then have "nearest_even y \<le> \<lfloor>y'\<rfloor>"
    using nearest_even_bounds(2)[of y] by simp
  with nearest_even_bounds(1)[of y'] show ?thesis by simp
qed

lemma nearest_even_ge:
  assumes "of_int L \<le> y"
  shows "L \<le> nearest_even y"
proof -
  from assms have "L \<le> \<lfloor>y\<rfloor>"
    by (simp add: le_floor_iff)
  with nearest_even_bounds(1)[of y] show ?thesis
    by simp
qed

lemma nearest_even_le:
  assumes "y < of_int U"
  shows "nearest_even y \<le> U"
proof -
  from assms have "\<lfloor>y\<rfloor> < U"
    by (simp add: floor_less_iff)
  with nearest_even_bounds(2)[of y] show ?thesis
    by simp
qed

text \<open>What \<open>rnd_pos\<close> computes: the significand at the scale that normalizes the argument.\<close>

lemma rnd_pos_char:
  assumes "0 < p" "0 < q"
  shows "\<exists>k. (2 ^ 52 :: rat) \<le> of_int p / of_int q * 2 powi k
            \<and> of_int p / of_int q * 2 powi k < (2 ^ 53 :: rat)
            \<and> rnd_pos p q = of_int (nearest_even (of_int p / of_int q * 2 powi k)) / 2 powi k"
proof -
  obtain P a where up: "scale_up p (q * 2 ^ 52) 0 = (P, a)"
    by (metis surj_pair)
  obtain Q b where down: "scale_down P (q * 2 ^ 52) 0 = (Q, b)"
    by (metis surj_pair)
  from assms have q52: "0 < q * 2 ^ 52"
    by simp
  from scale_up_result[OF up assms(1) q52] have P: "P = p * 2 ^ a" and le: "q * 2 ^ 52 \<le> P"
    by auto
  from scale_down_result[OF down q52 le] have Q: "Q = q * 2 ^ 52 * 2 ^ b" and QP: "Q \<le> P" "P < 2 * Q"
    by auto
  from Q assms have Qpos: "0 < Q"
    by simp
  let ?k = "int a - int b"
  let ?y = "of_int p / of_int q * 2 powi ?k :: rat"
  have pk: "(2::rat) powi ?k = 2 ^ a / 2 ^ b"
    by (simp add: power_int_diff)
  have y: "?y = of_int (P * 2 ^ 52) / of_int Q"
    using assms by (simp add: P Q pk field_simps)
  have "(of_int Q :: rat) \<le> of_int P" "(of_int P :: rat) < of_int (2 * Q)"
    using QP by (simp_all only: of_int_le_iff of_int_less_iff)
  then have lo: "2 ^ 52 \<le> ?y" and hi: "?y < 2 ^ 53"
    using Qpos unfolding y by (simp_all add: field_simps)
  have m: "round_half_even (P * 2 ^ 52) Q = nearest_even ?y"
    unfolding y by (rule round_half_even_eq[OF Qpos])
  have "rnd_pos p q = of_int (round_half_even (P * 2 ^ 52) Q * 2 ^ b) / of_int (2 ^ a)"
    by (simp only: rnd_pos_def up down prod.case)
  also have "\<dots> = of_int (nearest_even ?y) * 2 ^ b / 2 ^ a"
    by (simp only: m of_int_mult of_int_power of_int_numeral)
  also have "\<dots> = of_int (nearest_even ?y) / 2 powi ?k"
    by (simp only: pk) simp
  finally have "rnd_pos p q = of_int (nearest_even ?y) / 2 powi ?k" .
  with lo hi show ?thesis
    by blast
qed

lemma rnd_pos_mono:
  assumes pos: "0 < p" "0 < q" "0 < p'" "0 < q'"
    and le: "(of_int p / of_int q :: rat) \<le> of_int p' / of_int q'"
  shows "rnd_pos p q \<le> rnd_pos p' q'"
proof -
  let ?x = "of_int p / of_int q :: rat" and ?x' = "of_int p' / of_int q' :: rat"
  from rnd_pos_char[OF pos(1,2)] obtain k where
    k: "2 ^ 52 \<le> ?x * 2 powi k" "?x * 2 powi k < 2 ^ 53"
      "rnd_pos p q = of_int (nearest_even (?x * 2 powi k)) / 2 powi k"
    by blast
  from rnd_pos_char[OF pos(3,4)] obtain k' where
    k': "2 ^ 52 \<le> ?x' * 2 powi k'" "?x' * 2 powi k' < 2 ^ 53"
      "rnd_pos p' q' = of_int (nearest_even (?x' * 2 powi k')) / 2 powi k'"
    by blast
  have xpos: "0 < ?x"
    using pos by simp
  have s: "(0::rat) < 2 powi j" for j
    by simp
  have kk: "k' \<le> k"
  proof (rule ccontr)
    assume "\<not> k' \<le> k"
    then have "k + 1 \<le> k'" by simp
    then have "(2::rat) powi (k + 1) \<le> 2 powi k'"
      by (intro power_int_increasing) simp_all
    then have "2 * (2::rat) powi k \<le> 2 powi k'"
      by (simp add: power_int_add_1')
    then have "?x * (2 * 2 powi k) \<le> ?x * 2 powi k'"
      using xpos by (intro mult_left_mono) simp_all
    also have "\<dots> \<le> ?x' * 2 powi k'"
      using le by (intro mult_right_mono) simp_all
    finally have "2 * (?x * 2 powi k) < 2 ^ 53"
      using k'(2) by (simp add: mult.assoc mult.left_commute)
    with k(1) show False by simp
  qed
  show ?thesis
  proof (cases "k' = k")
    case True
    have "?x * 2 powi k \<le> ?x' * 2 powi k"
      using le by (intro mult_right_mono) simp_all
    then have "nearest_even (?x * 2 powi k) \<le> nearest_even (?x' * 2 powi k)"
      by (rule nearest_even_mono)
    then have "(of_int (nearest_even (?x * 2 powi k)) :: rat) \<le> of_int (nearest_even (?x' * 2 powi k))"
      by (simp only: of_int_le_iff)
    then show ?thesis
      unfolding k(3) k'(3) True by (intro divide_right_mono) simp_all
  next
    case False
    with kk have "k' + 1 \<le> k" by simp
    then have "(2::rat) powi (k' + 1) \<le> 2 powi k"
      by (intro power_int_increasing) simp_all
    then have two: "2 * (2::rat) powi k' \<le> 2 powi k"
      by (simp add: power_int_add_1')
    have "nearest_even (?x * 2 powi k) \<le> 2 ^ 53"
      using k(2) by (intro nearest_even_le) simp
    then have "(of_int (nearest_even (?x * 2 powi k)) :: rat) \<le> of_int (2 ^ 53)"
      by (simp only: of_int_le_iff)
    then have "rnd_pos p q \<le> 2 ^ 53 / 2 powi k"
      unfolding k(3) by (intro divide_right_mono) simp_all
    also have "\<dots> \<le> 2 ^ 53 / (2 * 2 powi k')"
      using two by (intro divide_left_mono) simp_all
    also have "\<dots> = 2 ^ 52 / 2 powi k'"
      by simp
    also have "\<dots> \<le> rnd_pos p' q'"
    proof -
      have "2 ^ 52 \<le> nearest_even (?x' * 2 powi k')"
        using k'(1) by (intro nearest_even_ge) simp
      then have "(of_int (2 ^ 52) :: rat) \<le> of_int (nearest_even (?x' * 2 powi k'))"
        by (simp only: of_int_le_iff)
      then show ?thesis
        unfolding k'(3) by (intro divide_right_mono) simp_all
    qed
    finally show ?thesis .
  qed
qed

lemma rnd_pos_positive:
  assumes "0 < p" "0 < q"
  shows "0 < rnd_pos p q"
proof -
  from rnd_pos_char[OF assms] obtain k where
    k: "(2 ^ 52 :: rat) \<le> of_int p / of_int q * 2 powi k"
      "rnd_pos p q = of_int (nearest_even (of_int p / of_int q * 2 powi k)) / 2 powi k"
    by blast
  have "2 ^ 52 \<le> nearest_even (of_int p / of_int q * 2 powi k)"
    using k(1) by (intro nearest_even_ge) simp
  then have "(0::rat) < of_int (nearest_even (of_int p / of_int q * 2 powi k))"
    by simp
  then show ?thesis
    unfolding k(2) by simp
qed

lemma rnd_cases:
  assumes "quotient_of x = (p, q)"
  shows "0 < p \<Longrightarrow> rnd x = rnd_pos p q" "p = 0 \<Longrightarrow> rnd x = 0"
    "p < 0 \<Longrightarrow> rnd x = - rnd_pos (- p) q"
  by (simp_all add: rnd_def assms)

lemma rnd_mono:
  assumes "x \<le> y"
  shows "rnd x \<le> rnd y"
proof -
  obtain p q where pq: "quotient_of x = (p, q)" by (metis surj_pair)
  obtain p' q' where pq': "quotient_of y = (p', q')" by (metis surj_pair)
  have q: "0 < q" "0 < q'"
    using quotient_of_denom_pos[OF pq] quotient_of_denom_pos[OF pq'] by simp_all
  have x: "x = of_int p / of_int q" and y: "y = of_int p' / of_int q'"
    using quotient_of_div[OF pq] quotient_of_div[OF pq'] by simp_all
  have sx: "0 < x \<longleftrightarrow> 0 < p" "x < 0 \<longleftrightarrow> p < 0"
    using q by (simp_all add: x zero_less_divide_iff divide_less_0_iff)
  have sy: "0 < y \<longleftrightarrow> 0 < p'" "y < 0 \<longleftrightarrow> p' < 0"
    using q by (simp_all add: y zero_less_divide_iff divide_less_0_iff)
  have nonneg: "0 \<le> rnd y" if "0 \<le> p'"
  proof (cases "p' = 0")
    case True
    then show ?thesis by (simp add: rnd_cases(2)[OF pq'])
  next
    case False
    with that have "0 < p'" by simp
    then show ?thesis
      using rnd_pos_positive[OF _ q(2)] by (simp add: rnd_cases(1)[OF pq'] less_imp_le)
  qed
  consider "0 < p" | "p = 0" | "p < 0" by arith
  then show ?thesis
  proof cases
    case 1
    with sx assms have "0 < y" by simp
    with sy have 2: "0 < p'" by simp
    have "(of_int p / of_int q :: rat) \<le> of_int p' / of_int q'"
      using assms by (simp only: x y)
    from rnd_pos_mono[OF 1 q(1) 2 q(2) this] show ?thesis
      by (simp only: rnd_cases(1)[OF pq 1] rnd_cases(1)[OF pq' 2])
  next
    case 2
    then have "x = 0" by (simp add: x)
    with assms have "\<not> y < 0" by simp
    with sy have "0 \<le> p'" by simp
    then have "0 \<le> rnd y" by (rule nonneg)
    then show ?thesis
      by (simp add: rnd_cases(2)[OF pq 2])
  next
    case 3
    then have "0 < - p" by simp
    from rnd_pos_positive[OF this q(1)] have neg: "rnd x < 0"
      by (simp add: rnd_cases(3)[OF pq 3])
    show ?thesis
    proof (cases "p' < 0")
      case False
      then have "0 \<le> rnd y" by (intro nonneg) simp
      with neg show ?thesis by simp
    next
      case True
      then have 4: "0 < - p'" by simp
      have "(of_int (- p') / of_int q' :: rat) \<le> of_int (- p) / of_int q"
        using assms by (simp add: x y)
      from rnd_pos_mono[OF 4 q(2) \<open>0 < - p\<close> q(1) this]
      show ?thesis
        by (simp add: rnd_cases(3)[OF pq 3] rnd_cases(3)[OF pq' True])
    qed
  qed
qed

lemma rnd_1 [simp]: "rnd 1 = 1"
  by code_simp

lemma rnd_0 [simp]: "rnd 0 = 0"
  by (simp add: rnd_def)

section \<open>difflib.SequenceMatcher with \<open>isjunk=None\<close> and \<open>autojunk=False\<close>\<close>

text \<open>
  \<open>are_similar\<close> builds \<open>SequenceMatcher(None, a, b, autojunk=False)\<close>. With no junk
  predicate and no popularity heuristic, \<open>b2j\<close> maps every element of \<open>b\<close> to the
  ascending list of its positions and \<open>bjunk\<close> is empty.
\<close>

definition b2j :: "'a list \<Rightarrow> 'a \<Rightarrow> nat list" where
  "b2j b x = filter (\<lambda>j. b ! j = x) [0..<length b]"

text \<open>\<open>j2len.get(j-1, 0)\<close>: the key \<open>-1\<close> is never stored.\<close>

definition j2lenget :: "(nat \<rightharpoonup> nat) \<Rightarrow> nat \<Rightarrow> nat" where
  "j2lenget j2len j = (if j = 0 then 0 else case j2len (j - 1) of None \<Rightarrow> 0 | Some k \<Rightarrow> k)"

text \<open>
  The inner loop of \<open>find_longest_match\<close> over the positions \<open>j\<close> of \<open>a[i]\<close> in \<open>b\<close>;
  the state is \<open>(newj2len, besti, bestj, bestsize)\<close>. \<open>continue\<close> below \<open>blo\<close>,
  \<open>break\<close> from \<open>bhi\<close> on.
\<close>

fun flm_inner :: "(nat \<rightharpoonup> nat) \<Rightarrow> nat \<Rightarrow> nat \<Rightarrow> nat \<Rightarrow> nat list \<Rightarrow>
    (nat \<rightharpoonup> nat) \<times> nat \<times> nat \<times> nat \<Rightarrow> (nat \<rightharpoonup> nat) \<times> nat \<times> nat \<times> nat" where
  "flm_inner j2len i blo bhi [] st = st"
| "flm_inner j2len i blo bhi (j # js) (newj2len, besti, bestj, bestsize) =
     (if j < blo then flm_inner j2len i blo bhi js (newj2len, besti, bestj, bestsize)
      else if bhi \<le> j then (newj2len, besti, bestj, bestsize)
      else
        let k = j2lenget j2len j + 1 in
        if bestsize < k
        then flm_inner j2len i blo bhi js (newj2len(j \<mapsto> k), i + 1 - k, j + 1 - k, k)
        else flm_inner j2len i blo bhi js (newj2len(j \<mapsto> k), besti, bestj, bestsize))"

text \<open>The outer loop \<open>for i in range(alo, ahi)\<close>; each round starts a fresh \<open>newj2len\<close>.\<close>

fun flm_outer :: "'a list \<Rightarrow> 'a list \<Rightarrow> nat \<Rightarrow> nat \<Rightarrow> nat list \<Rightarrow>
    (nat \<rightharpoonup> nat) \<times> nat \<times> nat \<times> nat \<Rightarrow> (nat \<rightharpoonup> nat) \<times> nat \<times> nat \<times> nat" where
  "flm_outer a b blo bhi [] st = st"
| "flm_outer a b blo bhi (i # is) (j2len, besti, bestj, bestsize) =
     flm_outer a b blo bhi is
       (flm_inner j2len i blo bhi (b2j b (a ! i)) (Map.empty, besti, bestj, bestsize))"

text \<open>
  The two \<open>while\<close> loops that extend the best block by non-junk elements. The two
  loops after them extend by junk elements and never run, \<open>bjunk\<close> being empty.
\<close>

function extend_left :: "'a list \<Rightarrow> 'a list \<Rightarrow> nat \<Rightarrow> nat \<Rightarrow> nat \<times> nat \<times> nat \<Rightarrow> nat \<times> nat \<times> nat" where
  "extend_left a b alo blo (besti, bestj, bestsize) =
     (if alo < besti \<and> blo < bestj \<and> a ! (besti - 1) = b ! (bestj - 1)
      then extend_left a b alo blo (besti - 1, bestj - 1, bestsize + 1)
      else (besti, bestj, bestsize))"
  by pat_completeness auto
termination
  by (relation "measure (\<lambda>(a, b, alo, blo, besti, bestj, bestsize). besti)") auto

function extend_right :: "'a list \<Rightarrow> 'a list \<Rightarrow> nat \<Rightarrow> nat \<Rightarrow> nat \<times> nat \<times> nat \<Rightarrow> nat \<times> nat \<times> nat" where
  "extend_right a b ahi bhi (besti, bestj, bestsize) =
     (if besti + bestsize < ahi \<and> bestj + bestsize < bhi
         \<and> a ! (besti + bestsize) = b ! (bestj + bestsize)
      then extend_right a b ahi bhi (besti, bestj, bestsize + 1)
      else (besti, bestj, bestsize))"
  by pat_completeness auto
termination
  by (relation "measure (\<lambda>(a, b, ahi, bhi, besti, bestj, bestsize). ahi - (besti + bestsize))") auto

definition find_longest_match :: "'a list \<Rightarrow> 'a list \<Rightarrow> nat \<Rightarrow> nat \<Rightarrow> nat \<Rightarrow> nat \<Rightarrow> nat \<times> nat \<times> nat" where
  "find_longest_match a b alo ahi blo bhi =
     extend_right a b ahi bhi
       (extend_left a b alo blo
          (snd (flm_outer a b blo bhi [alo..<ahi] (Map.empty, alo, blo, 0))))"

definition diag_ok :: "'a list \<Rightarrow> 'a list \<Rightarrow> nat \<Rightarrow> nat \<Rightarrow> nat \<Rightarrow> nat \<Rightarrow> (nat \<rightharpoonup> nat) \<Rightarrow> bool" where
  "diag_ok a b alo blo bhi i m \<longleftrightarrow>
     (\<forall>j k. m j = Some k \<longrightarrow>
        blo \<le> j \<and> j < bhi \<and> 1 \<le> k \<and> k + alo \<le> i \<and> k + blo \<le> j + 1
        \<and> (\<forall>d<k. a ! (i - k + d) = b ! (j + 1 - k + d)))"

definition best_ok :: "'a list \<Rightarrow> 'a list \<Rightarrow> nat \<Rightarrow> nat \<Rightarrow> nat \<Rightarrow> nat \<Rightarrow> nat \<times> nat \<times> nat \<Rightarrow> bool" where
  "best_ok a b alo ahi blo bhi st \<longleftrightarrow>
     (case st of (besti, bestj, bestsize) \<Rightarrow>
        alo \<le> besti \<and> blo \<le> bestj
        \<and> (0 < bestsize \<longrightarrow> besti + bestsize \<le> ahi \<and> bestj + bestsize \<le> bhi)
        \<and> (bestsize = 0 \<longrightarrow> besti = alo \<and> bestj = blo)
        \<and> (\<forall>d<bestsize. a ! (besti + d) = b ! (bestj + d)))"

lemma diag_ok_empty: "diag_ok a b alo blo bhi i Map.empty"
  by (simp add: diag_ok_def)

lemma diag_ok_upd:
  assumes "diag_ok a b alo blo bhi i m" "blo \<le> j" "j < bhi" "1 \<le> k" "k + alo \<le> i"
    "k + blo \<le> j + 1" "\<forall>d<k. a ! (i - k + d) = b ! (j + 1 - k + d)"
  shows "diag_ok a b alo blo bhi i (m(j \<mapsto> k))"
  using assms unfolding diag_ok_def by (auto simp del: One_nat_def)

lemma diag_okD:
  "diag_ok a b alo blo bhi i m \<Longrightarrow> m j = Some k \<Longrightarrow>
     blo \<le> j \<and> j < bhi \<and> 1 \<le> k \<and> k + alo \<le> i \<and> k + blo \<le> j + 1
     \<and> (\<forall>d<k. a ! (i - k + d) = b ! (j + 1 - k + d))"
  unfolding diag_ok_def by blast

lemma diag_ok_step:
  assumes prev: "diag_ok a b alo blo bhi i j2len"
    and new: "diag_ok a b alo blo bhi (Suc i) newj2len"
    and i: "alo \<le> i" and j: "blo \<le> j" "j < bhi" and eq: "a ! i = b ! j"
  shows "diag_ok a b alo blo bhi (Suc i) (newj2len(j \<mapsto> j2lenget j2len j + 1))"
proof (cases "j = 0 \<or> j2len (j - 1) = None")
  case True
  then have k: "j2lenget j2len j = 0"
    by (auto simp: j2lenget_def)
  show ?thesis
    by (rule diag_ok_upd[OF new j]) (use i j eq k in auto)
next
  case False
  then obtain k where jpos: "0 < j" and k: "j2len (j - 1) = Some k"
    by auto
  then have g: "j2lenget j2len j = k"
    by (simp add: j2lenget_def)
  from diag_okD[OF prev k]
  have "blo \<le> j - 1 \<and> j - 1 < bhi \<and> 1 \<le> k \<and> k + alo \<le> i \<and> k + blo \<le> j - 1 + 1
        \<and> (\<forall>d<k. a ! (i - k + d) = b ! (j - 1 + 1 - k + d))" .
  with jpos have p: "1 \<le> k" "k + alo \<le> i" "k + blo \<le> j"
    and m: "\<forall>d<k. a ! (i - k + d) = b ! (j - k + d)"
    by auto
  have mm: "a ! (Suc i - (k + 1) + d) = b ! (j + 1 - (k + 1) + d)" if "d < k + 1" for d
  proof (cases "d < k")
    case True
    with m show ?thesis by simp
  next
    case False
    with that have "d = k" by simp
    with p eq show ?thesis by simp
  qed
  show ?thesis
    unfolding g by (rule diag_ok_upd[OF new j]) (use p mm in auto)
qed

lemma best_ok_from_diag:
  assumes "k + alo \<le> Suc i" "k + blo \<le> j + 1" "1 \<le> k" "i < ahi" "j < bhi"
    "\<forall>d<k. a ! (Suc i - k + d) = b ! (j + 1 - k + d)"
  shows "best_ok a b alo ahi blo bhi (i + 1 - k, j + 1 - k, k)"
  unfolding best_ok_def using assms by auto

lemma flm_inner_ok:
  assumes "diag_ok a b alo blo bhi i j2len"
    and "diag_ok a b alo blo bhi (Suc i) newj2len"
    and "best_ok a b alo ahi blo bhi (besti, bestj, bestsize)"
    and "alo \<le> i" "i < ahi"
    and "\<forall>j\<in>set js. b ! j = a ! i"
    and "flm_inner j2len i blo bhi js (newj2len, besti, bestj, bestsize) = (m', st')"
  shows "diag_ok a b alo blo bhi (Suc i) m' \<and> best_ok a b alo ahi blo bhi st'"
  using assms
proof (induction js arbitrary: newj2len besti bestj bestsize)
  case Nil
  then show ?case by simp
next
  case (Cons j js)
  from Cons.prems(6) have js: "\<forall>j\<in>set js. b ! j = a ! i"
    by simp
  show ?case
  proof (cases "j < blo")
    case True
    with Cons show ?thesis by simp
  next
    case lo: False
    show ?thesis
    proof (cases "bhi \<le> j")
      case True
      with lo Cons.prems show ?thesis by simp
    next
      case hi: False
      let ?k = "j2lenget j2len j + 1"
      from Cons.prems lo hi have d': "diag_ok a b alo blo bhi (Suc i) (newj2len(j \<mapsto> ?k))"
        by (intro diag_ok_step) auto
      show ?thesis
      proof (cases "bestsize < ?k")
        case True
        have kk: "blo \<le> j \<and> j < bhi \<and> 1 \<le> ?k \<and> ?k + alo \<le> Suc i \<and> ?k + blo \<le> j + 1
            \<and> (\<forall>d<?k. a ! (Suc i - ?k + d) = b ! (j + 1 - ?k + d))"
          by (rule diag_okD[OF d']) simp
        have b': "best_ok a b alo ahi blo bhi (i + 1 - ?k, j + 1 - ?k, ?k)"
          by (rule best_ok_from_diag) (use kk Cons.prems(5) in blast)+
        from True lo hi Cons.prems(7)
        have run: "flm_inner j2len i blo bhi js (newj2len(j \<mapsto> ?k), i + 1 - ?k, j + 1 - ?k, ?k) = (m', st')"
          by (simp add: Let_def)
        show ?thesis
          by (rule Cons.IH[OF Cons.prems(1) d' b' Cons.prems(4,5) js run])
      next
        case False
        with lo hi Cons.prems(7)
        have run: "flm_inner j2len i blo bhi js (newj2len(j \<mapsto> ?k), besti, bestj, bestsize) = (m', st')"
          by (simp add: Let_def)
        show ?thesis
          by (rule Cons.IH[OF Cons.prems(1) d' Cons.prems(3,4,5) js run])
      qed
    qed
  qed
qed

lemma b2j_nth: "j \<in> set (b2j b x) \<Longrightarrow> b ! j = x"
  by (simp add: b2j_def)

lemma flm_outer_ok:
  assumes "diag_ok a b alo blo bhi i j2len"
    and "best_ok a b alo ahi blo bhi st"
    and "alo \<le> i"
  shows "best_ok a b alo ahi blo bhi (snd (flm_outer a b blo bhi [i..<ahi] (j2len, st)))"
  using assms
proof (induction "ahi - i" arbitrary: i j2len st)
  case 0
  then show ?case by simp
next
  case (Suc n)
  then have lt: "i < ahi" by simp
  obtain besti bestj bestsize where st: "st = (besti, bestj, bestsize)"
    by (cases st) auto
  obtain m1 st1 where inner:
    "flm_inner j2len i blo bhi (b2j b (a ! i)) (Map.empty, besti, bestj, bestsize) = (m1, st1)"
    by (cases "flm_inner j2len i blo bhi (b2j b (a ! i)) (Map.empty, besti, bestj, bestsize)") auto
  have el: "\<forall>j\<in>set (b2j b (a ! i)). b ! j = a ! i"
    by (simp add: b2j_nth)
  have b0: "best_ok a b alo ahi blo bhi (besti, bestj, bestsize)"
    using Suc.prems(2) st by simp
  have ok1: "diag_ok a b alo blo bhi (Suc i) m1 \<and> best_ok a b alo ahi blo bhi st1"
    by (rule flm_inner_ok[OF Suc.prems(1) diag_ok_empty b0 Suc.prems(3) lt el inner])
  have unf: "flm_outer a b blo bhi [i..<ahi] (j2len, st) = flm_outer a b blo bhi [Suc i..<ahi] (m1, st1)"
    using lt inner st by (simp add: upt_conv_Cons)
  have n: "n = ahi - Suc i"
    using Suc.hyps(2) by simp
  have "best_ok a b alo ahi blo bhi (snd (flm_outer a b blo bhi [Suc i..<ahi] (m1, st1)))"
    by (rule Suc.hyps(1)[OF n]) (use ok1 Suc.prems(3) in simp_all)
  then show ?case
    by (simp only: unf)
qed

declare extend_left.simps [simp del] extend_right.simps [simp del]

lemma extend_left_ok:
  "best_ok a b alo ahi blo bhi st \<Longrightarrow> best_ok a b alo ahi blo bhi (extend_left a b alo blo st)"
proof (induction a b alo blo st rule: extend_left.induct)
  case (1 a b alo blo besti bestj bestsize)
  show ?case
  proof (cases "alo < besti \<and> blo < bestj \<and> a ! (besti - 1) = b ! (bestj - 1)")
    case True
    from 1(2) True have pos: "0 < bestsize"
      unfolding best_ok_def by auto
    from 1(2) have m: "\<forall>d<bestsize. a ! (besti + d) = b ! (bestj + d)"
      and bd: "besti + bestsize \<le> ahi" "bestj + bestsize \<le> bhi"
      using pos unfolding best_ok_def by auto
    have mm: "a ! (besti - 1 + d) = b ! (bestj - 1 + d)" if "d < bestsize + 1" for d
    proof (cases d)
      case 0
      with True show ?thesis by simp
    next
      case (Suc e)
      with that m True show ?thesis by simp
    qed
    have "best_ok a b alo ahi blo bhi (besti - 1, bestj - 1, bestsize + 1)"
      unfolding best_ok_def using True bd mm by auto
    then have rec: "best_ok a b alo ahi blo bhi (extend_left a b alo blo (besti - 1, bestj - 1, bestsize + 1))"
      by (rule 1(1)[OF True])
    have "extend_left a b alo blo (besti, bestj, bestsize) = extend_left a b alo blo (besti - 1, bestj - 1, bestsize + 1)"
      using True by (subst extend_left.simps) simp
    with rec show ?thesis by simp
  next
    case False
    then have "extend_left a b alo blo (besti, bestj, bestsize) = (besti, bestj, bestsize)"
      by (subst extend_left.simps) auto
    with 1(2) show ?thesis by simp
  qed
qed

lemma extend_right_ok:
  "best_ok a b alo ahi blo bhi st \<Longrightarrow> best_ok a b alo ahi blo bhi (extend_right a b ahi bhi st)"
proof (induction a b ahi bhi st rule: extend_right.induct)
  case (1 a b ahi bhi besti bestj bestsize)
  show ?case
  proof (cases "besti + bestsize < ahi \<and> bestj + bestsize < bhi
         \<and> a ! (besti + bestsize) = b ! (bestj + bestsize)")
    case True
    from 1(2) have m: "\<forall>d<bestsize. a ! (besti + d) = b ! (bestj + d)"
      and lo: "alo \<le> besti" "blo \<le> bestj"
      unfolding best_ok_def by auto
    have mm: "a ! (besti + d) = b ! (bestj + d)" if "d < bestsize + 1" for d
    proof (cases "d < bestsize")
      case True
      with m show ?thesis by simp
    next
      case False
      with that have "d = bestsize" by simp
      with True show ?thesis by simp
    qed
    have "best_ok a b alo ahi blo bhi (besti, bestj, bestsize + 1)"
      unfolding best_ok_def using True lo mm by auto
    then have rec: "best_ok a b alo ahi blo bhi (extend_right a b ahi bhi (besti, bestj, bestsize + 1))"
      by (rule 1(1)[OF True])
    have "extend_right a b ahi bhi (besti, bestj, bestsize) = extend_right a b ahi bhi (besti, bestj, bestsize + 1)"
      using True by (subst extend_right.simps) simp
    with rec show ?thesis by simp
  next
    case False
    then have "extend_right a b ahi bhi (besti, bestj, bestsize) = (besti, bestj, bestsize)"
      by (subst extend_right.simps) auto
    with 1(2) show ?thesis by simp
  qed
qed

lemma best_ok_init: "best_ok a b alo ahi blo bhi (alo, blo, 0)"
  by (simp add: best_ok_def)

lemma find_longest_match_ok:
  "best_ok a b alo ahi blo bhi (find_longest_match a b alo ahi blo bhi)"
  unfolding find_longest_match_def
  by (intro extend_right_ok extend_left_ok flm_outer_ok diag_ok_empty best_ok_init order_refl)

function mb_loop :: "'a list \<Rightarrow> 'a list \<Rightarrow> (nat \<times> nat \<times> nat \<times> nat) list \<Rightarrow>
    (nat \<times> nat \<times> nat) list \<Rightarrow> (nat \<times> nat \<times> nat) list" where
  "mb_loop a b [] matching_blocks = matching_blocks"
| "mb_loop a b ((alo, ahi, blo, bhi) # queue) matching_blocks =
     (case find_longest_match a b alo ahi blo bhi of (i, j, k) \<Rightarrow>
        if k \<noteq> 0 then
          mb_loop a b
            ((if i + k < ahi \<and> j + k < bhi then [(i + k, ahi, j + k, bhi)] else []) @
             (if alo < i \<and> blo < j then [(alo, i, blo, j)] else []) @ queue)
            (matching_blocks @ [(i, j, k)])
        else mb_loop a b queue matching_blocks)"
  by pat_completeness auto
termination
proof (relation "measure (\<lambda>(a, b, queue, matching_blocks).
    sum_list (map (\<lambda>(alo, ahi, blo, bhi). 2 * (ahi - alo) + 1) queue))", goal_cases)
  case 1
  then show ?case by simp
next
  case (2 a b alo ahi blo bhi queue matching_blocks i y j k)
  have "best_ok a b alo ahi blo bhi (find_longest_match a b alo ahi blo bhi)"
    by (rule find_longest_match_ok)
  moreover from 2 have "find_longest_match a b alo ahi blo bhi = (i, j, k)" "0 < k"
    by simp_all
  ultimately have "alo \<le> i" "i + k \<le> ahi" "0 < k"
    by (simp_all add: best_ok_def)
  then show ?case by auto
next
  case 3
  then show ?case by simp
qed

declare mb_loop.simps [simp del]

text \<open>
  The loop of \<open>get_matching_blocks\<close> that merges adjacent blocks; the state is the
  pending block \<open>(i1, j1, k1)\<close> and the list \<open>non_adjacent\<close>.
\<close>

fun collapse_adjacent :: "nat \<times> nat \<times> nat \<Rightarrow> (nat \<times> nat \<times> nat) list \<Rightarrow>
    (nat \<times> nat \<times> nat) list \<Rightarrow> (nat \<times> nat \<times> nat) list" where
  "collapse_adjacent (i1, j1, k1) non_adjacent [] =
     (if k1 \<noteq> 0 then non_adjacent @ [(i1, j1, k1)] else non_adjacent)"
| "collapse_adjacent (i1, j1, k1) non_adjacent ((i2, j2, k2) # blocks) =
     (if i1 + k1 = i2 \<and> j1 + k1 = j2
      then collapse_adjacent (i1, j1, k1 + k2) non_adjacent blocks
      else collapse_adjacent (i2, j2, k2)
             (if k1 \<noteq> 0 then non_adjacent @ [(i1, j1, k1)] else non_adjacent) blocks)"

definition get_matching_blocks :: "'a list \<Rightarrow> 'a list \<Rightarrow> (nat \<times> nat \<times> nat) list" where
  "get_matching_blocks a b =
     (let la = length a; lb = length b;
          matching_blocks = sort (mb_loop a b [(0, la, 0, lb)] [])
      in collapse_adjacent (0, 0, 0) [] matching_blocks @ [(la, lb, 0)])"

text \<open>
  \<open>_calculate_ratio\<close>: \<open>2.0 * matches / length\<close>. The two integers are lengths of
  strings, below \<open>2^53\<close>, so their conversion to \<open>float\<close> and the product with \<open>2.0\<close>
  are exact; the division rounds.
\<close>

definition calculate_ratio :: "nat \<Rightarrow> nat \<Rightarrow> rat" where
  "calculate_ratio matches length' =
     (if length' \<noteq> 0 then rnd (2 * of_nat matches / of_nat length') else 1)"

definition block_sizes :: "(nat \<times> nat \<times> nat) list \<Rightarrow> nat" where
  "block_sizes blocks = sum_list (map (\<lambda>(i, j, k). k) blocks)"

definition ratio :: "'a list \<Rightarrow> 'a list \<Rightarrow> rat" where
  "ratio a b = calculate_ratio (block_sizes (get_matching_blocks a b)) (length a + length b)"

text \<open>\<open>fullbcount\<close>: how often each element occurs in \<open>b\<close>.\<close>

fun fullbcount_loop :: "('a \<rightharpoonup> nat) \<Rightarrow> 'a list \<Rightarrow> ('a \<rightharpoonup> nat)" where
  "fullbcount_loop fullbcount [] = fullbcount"
| "fullbcount_loop fullbcount (elt # b) =
     fullbcount_loop (fullbcount(elt \<mapsto> (case fullbcount elt of None \<Rightarrow> 0 | Some n \<Rightarrow> n) + 1)) b"

text \<open>
  The loop of \<open>quick_ratio\<close> over \<open>a\<close>; \<open>avail\<close> holds integers, since Python
  keeps decrementing below zero.
\<close>

fun quick_loop :: "('a \<rightharpoonup> nat) \<Rightarrow> ('a \<rightharpoonup> int) \<Rightarrow> nat \<Rightarrow> 'a list \<Rightarrow> nat" where
  "quick_loop fullbcount avail matches [] = matches"
| "quick_loop fullbcount avail matches (elt # a) =
     (let numb = (case avail elt of
                    Some n \<Rightarrow> n
                  | None \<Rightarrow> (case fullbcount elt of None \<Rightarrow> 0 | Some n \<Rightarrow> int n))
      in quick_loop fullbcount (avail(elt \<mapsto> numb - 1))
           (if 0 < numb then matches + 1 else matches) a)"

definition quick_ratio :: "'a list \<Rightarrow> 'a list \<Rightarrow> rat" where
  "quick_ratio a b =
     calculate_ratio (quick_loop (fullbcount_loop Map.empty b) Map.empty 0 a) (length a + length b)"

definition real_quick_ratio :: "'a list \<Rightarrow> 'a list \<Rightarrow> rat" where
  "real_quick_ratio a b =
     (let la = length a; lb = length b in calculate_ratio (min la lb) (la + lb))"

definition are_similar :: "'a list \<Rightarrow> 'a list \<Rightarrow> rat \<Rightarrow> bool" where
  "are_similar a b threshold =
     (if a = [] \<or> b = [] then False
      else if real_quick_ratio a b < threshold then False
      else if quick_ratio a b < threshold then False
      else threshold \<le> ratio a b)"

lemma block_sizes_simps [simp]:
  "block_sizes [] = 0"
  "block_sizes ((i, j, k) # blocks) = k + block_sizes blocks"
  "block_sizes (xs @ ys) = block_sizes xs + block_sizes ys"
  by (simp_all add: block_sizes_def)

lemma block_sizes_collapse_adjacent:
  "block_sizes (collapse_adjacent (i1, j1, k1) non_adjacent blocks) =
     block_sizes non_adjacent + k1 + block_sizes blocks"
  by (induction "(i1, j1, k1)" non_adjacent blocks arbitrary: i1 j1 k1
      rule: collapse_adjacent.induct) auto

lemma block_sizes_mset: "mset xs = mset ys \<Longrightarrow> block_sizes xs = block_sizes ys"
  unfolding block_sizes_def by (metis mset_map sum_mset_sum_list)

lemma block_sizes_get_matching_blocks:
  "block_sizes (get_matching_blocks a b) = block_sizes (mb_loop a b [(0, length a, 0, length b)] [])"
  by (simp add: get_matching_blocks_def Let_def block_sizes_collapse_adjacent
      block_sizes_mset[of "sort xs" xs for xs])

subsection \<open>A sequence compared with itself\<close>

lemma flm_inner_size_mono:
  "flm_inner j2len i blo bhi js (m, bi, bj, bs) = (m', bi', bj', bs') \<Longrightarrow> bs \<le> bs'"
proof (induction js arbitrary: m bi bj bs)
  case Nil
  then show ?case by simp
next
  case (Cons j js)
  then show ?case
    by (fastforce simp: Let_def split: if_splits)
qed

lemma flm_inner_keep:
  "j \<notin> set js \<Longrightarrow> flm_inner j2len i blo bhi js (m, bi, bj, bs) = (m', bi', bj', bs') \<Longrightarrow> m' j = m j"
proof (induction js arbitrary: m bi bj bs)
  case Nil
  then show ?case by simp
next
  case (Cons j0 js)
  then show ?case
    by (fastforce simp: Let_def split: if_splits)
qed

lemma flm_inner_hit:
  assumes "sorted js" "distinct js" "j \<in> set js" "blo \<le> j" "j < bhi"
    and "flm_inner j2len i blo bhi js (m, bi, bj, bs) = (m', bi', bj', bs')"
  shows "m' j = Some (j2lenget j2len j + 1) \<and> j2lenget j2len j + 1 \<le> bs'"
  using assms
proof (induction js arbitrary: m bi bj bs)
  case Nil
  then show ?case by simp
next
  case (Cons j0 js)
  show ?case
  proof (cases "j0 = j")
    case True
    let ?k = "j2lenget j2len j + 1"
    from Cons.prems True have nin: "j \<notin> set js" by simp
    show ?thesis
    proof (cases "bs < ?k")
      case big: True
      with Cons.prems True
      have run: "flm_inner j2len i blo bhi js (m(j \<mapsto> ?k), i + 1 - ?k, j + 1 - ?k, ?k) = (m', bi', bj', bs')"
        by (simp add: Let_def)
      from flm_inner_keep[OF nin run] flm_inner_size_mono[OF run] show ?thesis by simp
    next
      case small: False
      with Cons.prems True
      have run: "flm_inner j2len i blo bhi js (m(j \<mapsto> ?k), bi, bj, bs) = (m', bi', bj', bs')"
        by (simp add: Let_def)
      from flm_inner_keep[OF nin run] flm_inner_size_mono[OF run] small show ?thesis by simp
    qed
  next
    case False
    with Cons.prems have j: "j \<in> set js" and le: "j0 < bhi" and s: "sorted js" "distinct js"
      by auto
    from Cons.prems(6) le obtain m1 bi1 bj1 bs1
      where "flm_inner j2len i blo bhi js (m1, bi1, bj1, bs1) = (m', bi', bj', bs')"
      by (auto simp: Let_def split: if_splits)
    from Cons.IH[OF s j Cons.prems(4,5) this] show ?thesis .
  qed
qed

lemma b2j_sorted: "sorted (b2j b x)" and b2j_distinct: "distinct (b2j b x)"
  and b2j_mem: "j \<in> set (b2j b x) \<longleftrightarrow> j < length b \<and> b ! j = x"
  by (auto simp: b2j_def sorted_wrt_filter)

lemma flm_outer_self:
  assumes "j2lenget j2len i = i" "i \<le> bs"
    and "flm_outer x x 0 (length x) [i..<length x] (j2len, bi, bj, bs) = (m', bi', bj', bs')"
  shows "length x \<le> bs'"
  using assms
proof (induction "length x - i" arbitrary: i j2len bi bj bs)
  case 0
  then show ?case by simp
next
  case (Suc n)
  then have lt: "i < length x" by simp
  obtain m1 bi1 bj1 bs1 where inner:
    "flm_inner j2len i 0 (length x) (b2j x (x ! i)) (Map.empty, bi, bj, bs) = (m1, bi1, bj1, bs1)"
    by (metis prod_cases4)
  have mem: "i \<in> set (b2j x (x ! i))"
    using lt by (simp add: b2j_mem)
  from flm_inner_hit[OF b2j_sorted b2j_distinct mem _ lt inner] Suc.prems(1)
  have hit: "m1 i = Some (i + 1)" "i + 1 \<le> bs1"
    by simp_all
  then have g: "j2lenget m1 (Suc i) = Suc i"
    by (simp add: j2lenget_def)
  from Suc.prems(3) lt inner
  have run: "flm_outer x x 0 (length x) [Suc i..<length x] (m1, bi1, bj1, bs1) = (m', bi', bj', bs')"
    by (simp add: upt_conv_Cons)
  from Suc.hyps(2) have n: "n = length x - Suc i" by simp
  from hit have "Suc i \<le> bs1" by simp
  from Suc.hyps(1)[OF n g this run] show ?case .
qed

lemma find_longest_match_self:
  "find_longest_match x x 0 (length x) 0 (length x) = (0, 0, length x)"
proof -
  let ?n = "length x"
  obtain m' bi bj bs where run:
    "flm_outer x x 0 ?n [0..<?n] (Map.empty, 0, 0, 0) = (m', bi, bj, bs)"
    by (metis prod_cases4)
  have "?n \<le> bs"
    by (rule flm_outer_self[OF _ _ run]) (simp_all add: j2lenget_def)
  moreover have "best_ok x x 0 ?n 0 ?n (snd (flm_outer x x 0 ?n [0..<?n] (Map.empty, 0, 0, 0)))"
    by (intro flm_outer_ok diag_ok_empty best_ok_init order_refl)
  ultimately have "bi = 0 \<and> bj = 0 \<and> bs = ?n"
    using run by (cases "bs = 0") (auto simp: best_ok_def)
  then have "snd (flm_outer x x 0 ?n [0..<?n] (Map.empty, 0, 0, 0)) = (0, 0, ?n)"
    using run by simp
  then show ?thesis
    unfolding find_longest_match_def
    by (simp add: extend_left.simps[of x x 0 0 0 0 ?n] extend_right.simps[of x x ?n ?n 0 0 ?n])
qed

lemma block_sizes_self: "block_sizes (get_matching_blocks x x) = length x"
  by (simp add: block_sizes_get_matching_blocks mb_loop.simps find_longest_match_self)

lemma ratio_self: "ratio x x = 1"
proof (cases "x = []")
  case True
  then show ?thesis
    by (simp add: ratio_def calculate_ratio_def)
next
  case False
  then have len: "length x + length x \<noteq> 0"
    by simp
  from False have e: "(2 * of_nat (length x) / of_nat (length x + length x) :: rat) = 1"
    by simp
  show ?thesis
    by (simp only: ratio_def block_sizes_self calculate_ratio_def len if_True e rnd_1 simp_thms)
qed

subsection \<open>The pre-filters are upper bounds\<close>

definition slice :: "'a list \<Rightarrow> nat \<Rightarrow> nat \<Rightarrow> 'a list" where
  "slice xs lo hi = drop lo (take hi xs)"

definition common :: "'a list \<Rightarrow> 'a list \<Rightarrow> nat \<times> nat \<times> nat \<times> nat \<Rightarrow> nat" where
  "common a b q = (case q of (alo, ahi, blo, bhi) \<Rightarrow>
     size (mset (slice a alo ahi) \<inter># mset (slice b blo bhi)))"

definition in_range :: "'a list \<Rightarrow> 'a list \<Rightarrow> nat \<times> nat \<times> nat \<times> nat \<Rightarrow> bool" where
  "in_range a b q = (case q of (alo, ahi, blo, bhi) \<Rightarrow>
     alo \<le> ahi \<and> ahi \<le> length a \<and> blo \<le> bhi \<and> bhi \<le> length b)"

lemma slice_split:
  assumes "lo \<le> mid" "mid \<le> hi" "hi \<le> length xs"
  shows "slice xs lo hi = slice xs lo mid @ slice xs mid hi"
proof -
  have "take hi xs = take mid xs @ drop mid (take hi xs)"
    using assms by (metis append_take_drop_id min.absorb2 take_take min.commute)
  then have "drop lo (take hi xs) = drop lo (take mid xs) @ drop mid (take hi xs)"
    using assms by (metis drop_append length_take min.absorb2 diff_is_0_eq drop0 order_trans)
  then show ?thesis by (simp add: slice_def)
qed

lemma slice_eq:
  assumes "i + k \<le> length a" "j + k \<le> length b" "\<forall>d<k. a ! (i + d) = b ! (j + d)"
  shows "slice a i (i + k) = slice b j (j + k)"
  using assms by (auto simp: slice_def list_eq_iff_nth_eq)

lemma length_slice: "hi \<le> length xs \<Longrightarrow> length (slice xs lo hi) = hi - lo"
  by (simp add: slice_def)

lemma inter_mset_superadd:
  "size (A1 \<inter># B1) + size Z + size (A2 \<inter># B2)
     \<le> size ((A1 + Z + A2) \<inter># (B1 + Z + B2))" for A1 :: "'a multiset"
proof -
  have "(A1 \<inter># B1) + Z + (A2 \<inter># B2) \<subseteq># (A1 + Z + A2) \<inter># (B1 + Z + B2)"
    by (intro subset_mset.inf_greatest subset_mset.add_mono subset_mset.inf_le1
        subset_mset.inf_le2 subset_mset.order_refl)
  from size_mset_mono[OF this] show ?thesis by simp
qed

lemma common_split:
  assumes "in_range a b (alo, ahi, blo, bhi)"
    and "best_ok a b alo ahi blo bhi (i, j, k)" and "0 < k"
  shows "common a b (alo, i, blo, j) + k + common a b (i + k, ahi, j + k, bhi)
           \<le> common a b (alo, ahi, blo, bhi)"
proof -
  from assms have r: "alo \<le> i" "i + k \<le> ahi" "ahi \<le> length a" "blo \<le> j" "j + k \<le> bhi"
    "bhi \<le> length b" and m: "\<forall>d<k. a ! (i + d) = b ! (j + d)"
    by (auto simp: in_range_def best_ok_def)
  have sa: "slice a alo ahi = slice a alo i @ slice a i (i + k) @ slice a (i + k) ahi"
    using r slice_split[of alo i ahi a] slice_split[of i "i + k" ahi a] by simp
  have sb: "slice b blo bhi = slice b blo j @ slice b j (j + k) @ slice b (j + k) bhi"
    using r slice_split[of blo j bhi b] slice_split[of j "j + k" bhi b] by simp
  have z: "slice a i (i + k) = slice b j (j + k)"
    using r m by (intro slice_eq) auto
  have lz: "length (slice b j (j + k)) = k"
    using r by (simp add: length_slice)
  show ?thesis
    unfolding common_def prod.case sa sb z mset_append
    using inter_mset_superadd[of "mset (slice a alo i)" "mset (slice b blo j)"
        "mset (slice b j (j + k))" "mset (slice a (i + k) ahi)" "mset (slice b (j + k) bhi)"]
    by (simp add: lz add.assoc)
qed

lemma mb_loop_bound:
  "\<forall>q\<in>set queue. in_range a b q \<Longrightarrow>
   block_sizes (mb_loop a b queue matching_blocks)
     \<le> block_sizes matching_blocks + sum_list (map (common a b) queue)"
proof (induction a b queue matching_blocks rule: mb_loop.induct)
  case (1 a b matching_blocks)
  then show ?case by (simp add: mb_loop.simps)
next
  case (2 a b alo ahi blo bhi queue matching_blocks)
  obtain i j k where f: "find_longest_match a b alo ahi blo bhi = (i, j, k)"
    by (metis prod_cases3)
  have ok: "best_ok a b alo ahi blo bhi (i, j, k)"
    using find_longest_match_ok[of a b alo ahi blo bhi] f by simp
  from "2.prems" have rq: "in_range a b (alo, ahi, blo, bhi)" and rest: "\<forall>q\<in>set queue. in_range a b q"
    by simp_all
  show ?case
  proof (cases "k = 0")
    case True
    with "2.IH"(2)[OF f[symmetric] refl _ rest] f show ?thesis
      by (simp add: mb_loop.simps)
  next
    case False
    let ?new = "(if i + k < ahi \<and> j + k < bhi then [(i + k, ahi, j + k, bhi)] else []) @
             (if alo < i \<and> blo < j then [(alo, i, blo, j)] else []) @ queue"
    from ok rq False have "\<forall>q\<in>set ?new. in_range a b q"
      using rest by (auto simp: in_range_def best_ok_def)
    from "2.IH"(1)[OF f[symmetric] refl False this]
    have "block_sizes (mb_loop a b ?new (matching_blocks @ [(i, j, k)]))
            \<le> block_sizes matching_blocks + k + sum_list (map (common a b) ?new)"
      by simp
    also have "sum_list (map (common a b) ?new)
        \<le> common a b (i + k, ahi, j + k, bhi) + common a b (alo, i, blo, j)
            + sum_list (map (common a b) queue)"
      by simp
    also have "block_sizes matching_blocks + k +
         (common a b (i + k, ahi, j + k, bhi) + common a b (alo, i, blo, j)
            + sum_list (map (common a b) queue))
       \<le> block_sizes matching_blocks + (common a b (alo, ahi, blo, bhi)
            + sum_list (map (common a b) queue))"
      using common_split[OF rq ok] False by simp
    finally show ?thesis
      using f False by (simp add: mb_loop.simps)
  qed
qed

lemma block_sizes_le_common:
  "block_sizes (get_matching_blocks a b) \<le> size (mset a \<inter># mset b)"
proof -
  have "block_sizes (mb_loop a b [(0, length a, 0, length b)] [])
          \<le> block_sizes [] + sum_list (map (common a b) [(0, length a, 0, length b)])"
    by (rule mb_loop_bound) (simp add: in_range_def)
  then show ?thesis
    by (simp add: block_sizes_get_matching_blocks common_def slice_def)
qed

definition count_of :: "('a \<rightharpoonup> nat) \<Rightarrow> 'a \<Rightarrow> nat" where
  "count_of fullbcount elt = (case fullbcount elt of None \<Rightarrow> 0 | Some n \<Rightarrow> n)"

lemma fullbcount_loop_count:
  "count_of (fullbcount_loop fullbcount b) x = count_of fullbcount x + count (mset b) x"
  by (induction b arbitrary: fullbcount) (auto simp: count_of_def)

lemma inter_add_mset_left:
  "add_mset e P \<inter># B = (if count P e < count B e then add_mset e (P \<inter># B) else P \<inter># B)"
  by (rule multiset_eqI) auto

lemma quick_loop_count:
  assumes "\<forall>x. (case avail x of Some n \<Rightarrow> n | None \<Rightarrow> int (count_of fullbcount x))
              = int (count B x) - int (count P x)"
  shows "quick_loop fullbcount avail matches a + size (P \<inter># B)
           = matches + size ((P + mset a) \<inter># B)"
  using assms
proof (induction a arbitrary: avail matches P)
  case Nil
  then show ?case by simp
next
  case (Cons e a)
  let ?numb = "case avail e of Some n \<Rightarrow> n | None \<Rightarrow> int (count_of fullbcount e)"
  from Cons.prems have numb: "?numb = int (count B e) - int (count P e)"
    by blast
  have inv: "\<forall>x. (case (avail(e \<mapsto> ?numb - 1)) x of Some n \<Rightarrow> n
                      | None \<Rightarrow> int (count_of fullbcount x))
              = int (count B x) - int (count (add_mset e P) x)"
    using Cons.prems numb by auto
  have unf: "quick_loop fullbcount avail matches (e # a)
      = quick_loop fullbcount (avail(e \<mapsto> ?numb - 1)) (if 0 < ?numb then matches + 1 else matches) a"
    by (simp add: Let_def count_of_def split: option.split)
  have pos: "0 < ?numb \<longleftrightarrow> count P e < count B e"
    using numb by auto
  define delta :: nat where "delta = (if count P e < count B e then 1 else 0)"
  have sz: "size (add_mset e P \<inter># B) = size (P \<inter># B) + delta"
    by (simp add: inter_add_mset_left delta_def)
  have m': "(if 0 < ?numb then matches + 1 else matches) = matches + delta"
    using pos by (simp add: delta_def)
  have ms: "P + mset (e # a) = add_mset e P + mset a"
    by simp
  from Cons.IH[OF inv, of "matches + delta"]
  show ?case
    unfolding unf sz m' ms by linarith
qed

lemma quick_loop_eq:
  "quick_loop (fullbcount_loop Map.empty b) Map.empty 0 a = size (mset a \<inter># mset b)"
proof -
  have "quick_loop (fullbcount_loop Map.empty b) Map.empty 0 a + size ({#} \<inter># mset b)
          = 0 + size (({#} + mset a) \<inter># mset b)"
  proof (rule quick_loop_count, intro allI)
    fix x
    have "count_of (fullbcount_loop Map.empty b) x = count (mset b) x"
      by (simp add: fullbcount_loop_count) (simp add: count_of_def)
    then show "(case Map.empty x of Some n \<Rightarrow> n
                | None \<Rightarrow> int (count_of (fullbcount_loop Map.empty b) x))
          = int (count (mset b) x) - int (count {#} x)"
      by simp
  qed
  then show ?thesis by simp
qed

lemma calculate_ratio_mono:
  "m \<le> n \<Longrightarrow> calculate_ratio m len \<le> calculate_ratio n len"
  by (auto simp: calculate_ratio_def intro!: rnd_mono divide_right_mono)

lemma ratio_le_quick_ratio: "ratio a b \<le> quick_ratio a b"
  unfolding ratio_def quick_ratio_def quick_loop_eq
  by (rule calculate_ratio_mono) (rule block_sizes_le_common)

lemma quick_ratio_le_real_quick_ratio: "quick_ratio a b \<le> real_quick_ratio a b"
proof -
  have "size (mset a \<inter># mset b) \<le> size (mset a)"
    by (rule size_mset_mono) simp
  moreover have "size (mset a \<inter># mset b) \<le> size (mset b)"
    by (rule size_mset_mono) simp
  ultimately have "size (mset a \<inter># mset b) \<le> min (length a) (length b)"
    by simp
  then show ?thesis
    unfolding quick_ratio_def real_quick_ratio_def quick_loop_eq Let_def
    by (rule calculate_ratio_mono)
qed

lemma are_similar_iff:
  "are_similar a b threshold \<longleftrightarrow> a \<noteq> [] \<and> b \<noteq> [] \<and> threshold \<le> ratio a b"
  using ratio_le_quick_ratio[of a b] quick_ratio_le_real_quick_ratio[of a b]
  by (auto simp: are_similar_def)

section \<open>Claims about the similarity test\<close>

text \<open>
  C3. For every threshold \<open>t\<close> in \<open>(0, 1]\<close> and every pair of non-empty strings,
  \<open>are_similar a b t\<close> holds exactly when the full ratio is at least \<open>t\<close>; neither
  pre-filter rejects a pair that the full ratio accepts.
\<close>

theorem are_similar_decided_by_ratio:
  assumes "0 < t" "t \<le> 1" "a \<noteq> []" "b \<noteq> []"
  shows "(are_similar a b t \<longleftrightarrow> t \<le> ratio a b)
    \<and> (real_quick_ratio a b < t \<longrightarrow> ratio a b < t)
    \<and> (quick_ratio a b < t \<longrightarrow> ratio a b < t)"
  using assms are_similar_iff[of a b t]
    ratio_le_quick_ratio[of a b] quick_ratio_le_real_quick_ratio[of a b]
  by auto

theorem are_similar_decided_by_ratio_witness:
  "are_similar (ascii ''cba'') (ascii ''ca'') (3 / 4)
   \<and> \<not> are_similar (ascii ''aca'') (ascii ''cba'') (1 / 2)
   \<and> ratio (ascii ''cba'') (ascii ''ca'') = rnd (4 / 5)
   \<and> ratio (ascii ''aca'') (ascii ''cba'') = rnd (1 / 3)"
proof -
  have r1: "ratio (ascii ''cba'') (ascii ''ca'') = rnd (4 / 5)"
    by code_simp
  have r2: "ratio (ascii ''aca'') (ascii ''cba'') = rnd (1 / 3)"
    by code_simp
  have ne: "ascii ''cba'' \<noteq> []" "ascii ''ca'' \<noteq> []" "ascii ''aca'' \<noteq> []"
    by (simp_all add: ascii_def)
  have "are_similar (ascii ''cba'') (ascii ''ca'') (3 / 4)"
  proof -
    have "(3 / 4 :: rat) \<le> rnd (4 / 5)"
      by code_simp
    then show ?thesis
      using are_similar_decided_by_ratio[OF _ _ ne(1) ne(2), of "3 / 4"] r1 by simp
  qed
  moreover have "\<not> are_similar (ascii ''aca'') (ascii ''cba'') (1 / 2)"
  proof -
    have "\<not> (1 / 2 :: rat) \<le> rnd (1 / 3)"
      by code_simp
    then show ?thesis
      using are_similar_decided_by_ratio[OF _ _ ne(3) ne(1), of "1 / 2"] r2 by simp
  qed
  ultimately show ?thesis
    using r1 r2 by simp
qed

section \<open>Data model\<close>

text \<open>
  A spreadsheet cell as \<open>openpyxl\<close> hands it over with \<open>values_only=True\<close>: \<open>None\<close>,
  a string, a boolean, an integer, a float (as the rational it denotes) or a date
  (as a day number).
\<close>

datatype cell = CNone | CStr str | CBool bool | CInt int | CFloat rat | CDate int

record Message =
  source_file :: str
  body :: str
  body_normalized :: str
  status_raw :: str
  status_mapped :: str
  date :: "int option"
  metadata :: "(string \<times> cell) list"

record MessageCluster =
  representative :: str
  representative_raw :: str
  messages :: "Message list"

definition add :: "MessageCluster \<Rightarrow> Message \<Rightarrow> MessageCluster" where
  "add cluster message = cluster\<lparr>messages := messages cluster @ [message]\<rparr>"

text \<open>The property \<open>total\<close>.\<close>

definition total_of :: "MessageCluster \<Rightarrow> nat" where
  "total_of cluster = length (messages cluster)"

section \<open>Clustering by similarity\<close>

text \<open>
  The state of the loop of \<open>cluster_messages\<close>. A cluster object is referred to by
  its position in \<open>clusters\<close>, the list in creation order: the loop appends to that
  list and never removes or reorders, so the position is the object's identity.
  \<open>prefix_index\<close> is a \<open>defaultdict(list)\<close>: a missing key reads as the empty list.
\<close>

record cluster_state =
  clusters :: "MessageCluster list"
  exact_index :: "str \<rightharpoonup> nat"
  prefix_index :: "str \<rightharpoonup> nat list"

definition bucket_of :: "(str \<rightharpoonup> nat list) \<Rightarrow> str \<Rightarrow> nat list" where
  "bucket_of index prefix = (case index prefix of None \<Rightarrow> [] | Some bucket \<Rightarrow> bucket)"

text \<open>
  The length test that lets the full scan skip a cluster (\<open>continue  # pulo heuristico\<close>):
  \<open>min(...) / max_len < threshold - 0.15\<close>, a correctly rounded quotient of two integers
  against a rounded difference of two doubles, \<open>0.15\<close> being the double nearest to 15/100.
\<close>

definition length_skip :: "str \<Rightarrow> str \<Rightarrow> rat \<Rightarrow> bool" where
  "length_skip normalized rep threshold \<longleftrightarrow>
     normalized \<noteq> [] \<and> rep \<noteq> [] \<and>
     (let max_len = max (length rep) (length normalized)
      in max_len \<noteq> 0
         \<and> rnd (of_nat (min (length rep) (length normalized)) / of_nat max_len)
               < rnd (threshold - rnd (15 / 100)))"

text \<open>The two \<open>for ... break\<close> loops: the first cluster that passes, if any.\<close>

definition scan_candidates :: "MessageCluster list \<Rightarrow> nat list \<Rightarrow> str \<Rightarrow> rat \<Rightarrow> nat option" where
  "scan_candidates cs candidates normalized threshold =
     find (\<lambda>k. are_similar normalized (representative (cs ! k)) threshold) candidates"

definition scan_clusters :: "MessageCluster list \<Rightarrow> nat list \<Rightarrow> str \<Rightarrow> rat \<Rightarrow> nat option" where
  "scan_clusters cs candidates normalized threshold =
     find (\<lambda>k. k \<notin> set candidates
               \<and> \<not> length_skip normalized (representative (cs ! k)) threshold
               \<and> are_similar normalized (representative (cs ! k)) threshold)
          [0..<length cs]"

text \<open>\<open>assigned_cluster\<close> before the \<open>if assigned_cluster is None\<close> that creates a cluster.\<close>

definition assign :: "cluster_state \<Rightarrow> Message \<Rightarrow> rat \<Rightarrow> nat option" where
  "assign st msg threshold =
     (let normalized = body_normalized msg;
          prefix = take 40 normalized
      in case (if normalized \<noteq> [] then exact_index st normalized else None) of
           Some k \<Rightarrow> Some k
         | None \<Rightarrow>
             (let candidates = bucket_of (prefix_index st) prefix
              in case scan_candidates (clusters st) candidates normalized threshold of
                   Some k \<Rightarrow> Some k
                 | None \<Rightarrow> scan_clusters (clusters st) candidates normalized threshold))"

text \<open>
  One round of the loop. \<open>assigned_cluster not in bucket\<close> is Python's list
  membership, which compares the dataclass values (after the message was added).
\<close>

definition cluster_step :: "rat \<Rightarrow> cluster_state \<Rightarrow> Message \<Rightarrow> cluster_state" where
  "cluster_step threshold st msg =
     (let normalized = body_normalized msg;
          prefix = take 40 normalized;
          assigned = assign st msg threshold;
          cs = (case assigned of
                  Some k \<Rightarrow> clusters st
                | None \<Rightarrow> clusters st @
                    [\<lparr>representative = normalized, representative_raw = body msg, messages = []\<rparr>]);
          k = (case assigned of Some k \<Rightarrow> k | None \<Rightarrow> length (clusters st));
          cs' = cs[k := add (cs ! k) msg];
          exact_index' = (if normalized \<noteq> [] \<and> exact_index st normalized = None
                          then (exact_index st)(normalized \<mapsto> k) else exact_index st);
          bucket = bucket_of (prefix_index st) prefix;
          bucket' = (if cs' ! k \<in> set (map ((!) cs') bucket) then bucket else bucket @ [k])
      in \<lparr>clusters = cs', exact_index = exact_index',
          prefix_index = (prefix_index st)(prefix \<mapsto> bucket')\<rparr>)"

definition initial_state :: cluster_state where
  "initial_state = \<lparr>clusters = [], exact_index = Map.empty, prefix_index = Map.empty\<rparr>"

definition cluster_pass :: "Message list \<Rightarrow> rat \<Rightarrow> cluster_state" where
  "cluster_pass msgs threshold = foldl (cluster_step threshold) initial_state msgs"

text \<open>
  \<open>clusters.sort(key=lambda c: c.total, reverse=True)\<close>: CPython reverses the list,
  sorts it stably by ascending key and reverses it again.
\<close>

definition cluster_messages :: "Message list \<Rightarrow> rat \<Rightarrow> MessageCluster list" where
  "cluster_messages msgs threshold =
     rev (sort_key total_of (rev (clusters (cluster_pass msgs threshold))))"

section \<open>Invariants of the clustering loop\<close>

lemma are_similar_Nil [simp]: "\<not> are_similar [] b t" "\<not> are_similar a [] t"
  by (simp_all add: are_similar_def)

definition index_ok :: "cluster_state \<Rightarrow> bool" where
  "index_ok st \<longleftrightarrow>
     (\<forall>n k. exact_index st n = Some k \<longrightarrow>
        n \<noteq> [] \<and> k < length (clusters st)
        \<and> (\<exists>m\<in>set (messages (clusters st ! k)). body_normalized m = n))
     \<and> (\<forall>p. \<forall>k\<in>set (bucket_of (prefix_index st) p). k < length (clusters st))"

definition registered :: "cluster_state \<Rightarrow> bool" where
  "registered st \<longleftrightarrow>
     (\<forall>k<length (clusters st). \<forall>m\<in>set (messages (clusters st ! k)).
        body_normalized m \<noteq> [] \<longrightarrow> exact_index st (body_normalized m) = Some k)"

definition near_ok :: "rat \<Rightarrow> MessageCluster \<Rightarrow> bool" where
  "near_ok t c \<longleftrightarrow>
     (\<forall>i<length (messages c).
        t \<le> ratio (body_normalized (messages c ! i)) (representative c)
        \<or> (\<exists>j<i. body_normalized (messages c ! j) = body_normalized (messages c ! i)))"

definition shape_ok :: "MessageCluster \<Rightarrow> bool" where
  "shape_ok c \<longleftrightarrow>
     (representative c = [] \<longrightarrow> (\<exists>m. messages c = [m] \<and> body_normalized m = []))
     \<and> (representative c \<noteq> [] \<longrightarrow> (\<forall>m\<in>set (messages c). body_normalized m \<noteq> []))"

lemma find_False [simp]: "find (\<lambda>k. False) xs = None"
  by (simp add: find_None_iff)

lemma assign_empty: "body_normalized m = [] \<Longrightarrow> assign st m t = None"
  by (simp add: assign_def Let_def scan_candidates_def scan_clusters_def)

lemma assign_exact:
  "body_normalized m \<noteq> [] \<Longrightarrow> exact_index st (body_normalized m) = Some k \<Longrightarrow>
     assign st m t = Some k"
  by (simp add: assign_def)

lemma assign_cases:
  assumes "assign st m t = Some k"
  shows "(body_normalized m \<noteq> [] \<and> exact_index st (body_normalized m) = Some k)
    \<or> (are_similar (body_normalized m) (representative (clusters st ! k)) t
        \<and> (k \<in> set (bucket_of (prefix_index st) (take 40 (body_normalized m)))
             \<or> k < length (clusters st)))"
  using assms
  by (auto simp: assign_def Let_def scan_candidates_def scan_clusters_def find_Some_iff
      split: option.splits if_splits)

lemma assign_lt:
  "index_ok st \<Longrightarrow> assign st m t = Some k \<Longrightarrow> k < length (clusters st)"
  by (drule assign_cases) (auto simp: index_ok_def)

lemma clusters_step:
  "clusters (cluster_step t st m) =
     (case assign st m t of
        Some k \<Rightarrow> (clusters st)[k := add (clusters st ! k) m]
      | None \<Rightarrow> clusters st @
          [\<lparr>representative = body_normalized m, representative_raw = body m, messages = [m]\<rparr>])"
  by (simp add: cluster_step_def Let_def add_def split: option.split)

definition assigned_index :: "cluster_state \<Rightarrow> Message \<Rightarrow> rat \<Rightarrow> nat" where
  "assigned_index st m t = (case assign st m t of Some k \<Rightarrow> k | None \<Rightarrow> length (clusters st))"

lemma exact_index_step:
  "exact_index (cluster_step t st m) =
     (if body_normalized m \<noteq> [] \<and> exact_index st (body_normalized m) = None
      then (exact_index st)(body_normalized m \<mapsto> assigned_index st m t)
      else exact_index st)"
  by (simp add: cluster_step_def Let_def assigned_index_def)

lemma bucket_step:
  "set (bucket_of (prefix_index (cluster_step t st m)) p)
     \<subseteq> insert (assigned_index st m t) (set (bucket_of (prefix_index st) p))"
  by (auto simp: cluster_step_def Let_def assigned_index_def bucket_of_def split: if_splits)

lemma length_clusters_step:
  "index_ok st \<Longrightarrow> length (clusters (cluster_step t st m)) =
     (case assign st m t of Some k \<Rightarrow> length (clusters st) | None \<Rightarrow> Suc (length (clusters st)))"
  by (simp add: clusters_step split: option.split)

lemma assigned_index_lt:
  "index_ok st \<Longrightarrow> assigned_index st m t < length (clusters (cluster_step t st m))"
  by (auto simp: assigned_index_def length_clusters_step dest: assign_lt split: option.split)

lemma messages_step_assigned:
  "index_ok st \<Longrightarrow>
     messages (clusters (cluster_step t st m) ! assigned_index st m t) =
       (case assign st m t of Some k \<Rightarrow> messages (clusters st ! k) | None \<Rightarrow> []) @ [m]"
  by (auto simp: clusters_step assigned_index_def add_def dest: assign_lt split: option.split)

lemma messages_step_other:
  "k < length (clusters st) \<Longrightarrow> k \<noteq> assigned_index st m t \<Longrightarrow>
     clusters (cluster_step t st m) ! k = clusters st ! k"
  by (auto simp: clusters_step assigned_index_def nth_append split: option.split)

lemma messages_step_grow:
  "index_ok st \<Longrightarrow> k < length (clusters st) \<Longrightarrow>
     set (messages (clusters st ! k)) \<subseteq> set (messages (clusters (cluster_step t st m) ! k))"
proof (cases "k = assigned_index st m t")
  case True
  assume "index_ok st" "k < length (clusters st)"
  with True show ?thesis
    using messages_step_assigned[of st t m]
    by (auto simp: assigned_index_def split: option.splits)
next
  case False
  assume "k < length (clusters st)"
  with False show ?thesis by (simp add: messages_step_other)
qed

lemma index_ok_step:
  assumes "index_ok st"
  shows "index_ok (cluster_step t st m)"
proof -
  have A: "n \<noteq> [] \<and> k < length (clusters (cluster_step t st m))
      \<and> (\<exists>m'\<in>set (messages (clusters (cluster_step t st m) ! k)). body_normalized m' = n)"
    if e: "exact_index (cluster_step t st m) n = Some k" for n k
  proof (cases "exact_index st n = Some k")
    case True
    with assms have "n \<noteq> []" "k < length (clusters st)"
      "\<exists>m'\<in>set (messages (clusters st ! k)). body_normalized m' = n"
      by (auto simp: index_ok_def)
    moreover from this assms have "k < length (clusters (cluster_step t st m))"
      by (simp add: length_clusters_step split: option.split)
    ultimately show ?thesis
      using messages_step_grow[OF assms, of k t m] by blast
  next
    case False
    with e have n: "n = body_normalized m" "n \<noteq> []" "k = assigned_index st m t"
      by (auto simp: exact_index_step split: if_splits)
    then show ?thesis
      using assigned_index_lt[OF assms, of m t] messages_step_assigned[OF assms, of t m] by simp
  qed
  have B: "k < length (clusters (cluster_step t st m))"
    if "k \<in> set (bucket_of (prefix_index (cluster_step t st m)) p)" for p k
  proof -
    from that bucket_step[of t st m p]
    have "k = assigned_index st m t \<or> k \<in> set (bucket_of (prefix_index st) p)"
      by auto
    then show ?thesis
    proof
      assume "k = assigned_index st m t"
      then show ?thesis using assigned_index_lt[OF assms] by simp
    next
      assume "k \<in> set (bucket_of (prefix_index st) p)"
      with assms have "k < length (clusters st)" by (auto simp: index_ok_def)
      with assms show ?thesis by (simp add: length_clusters_step split: option.split)
    qed
  qed
  from A B show ?thesis
    unfolding index_ok_def by blast
qed

lemma registered_step:
  assumes ok: "index_ok st" and reg: "registered st"
  shows "registered (cluster_step t st m)"
  unfolding registered_def
proof (intro allI impI ballI)
  fix k m'
  let ?st' = "cluster_step t st m"
  assume k: "k < length (clusters ?st')" and m': "m' \<in> set (messages (clusters ?st' ! k))"
    and ne: "body_normalized m' \<noteq> []"
  have keep: "exact_index ?st' n = Some j" if "exact_index st n = Some j" for n j
    using that by (auto simp: exact_index_step)
  have new: "exact_index ?st' (body_normalized m) = Some (assigned_index st m t)"
    if "body_normalized m \<noteq> []"
  proof (cases "exact_index st (body_normalized m)")
    case None
    with that show ?thesis by (simp add: exact_index_step)
  next
    case (Some k0)
    with that have "assign st m t = Some k0" by (simp add: assign_exact)
    with Some that show ?thesis by (simp add: exact_index_step assigned_index_def)
  qed
  show "exact_index ?st' (body_normalized m') = Some k"
  proof (cases "k = assigned_index st m t")
    case True
    from m' True messages_step_assigned[OF ok, of t m]
    have "m' = m \<or> (\<exists>k0. assign st m t = Some k0 \<and> m' \<in> set (messages (clusters st ! k0)))"
      by (auto split: option.splits)
    then show ?thesis
    proof
      assume "m' = m"
      with ne new True show ?thesis by simp
    next
      assume "\<exists>k0. assign st m t = Some k0 \<and> m' \<in> set (messages (clusters st ! k0))"
      then obtain k0 where a: "assign st m t = Some k0" and m0: "m' \<in> set (messages (clusters st ! k0))"
        by blast
      from a True have "k0 = k" by (simp add: assigned_index_def)
      moreover from a ok have "k0 < length (clusters st)" by (rule assign_lt[rotated])
      ultimately show ?thesis using reg m0 ne keep by (auto simp: registered_def)
    qed
  next
    case False
    with k ok have "k < length (clusters st)"
      by (auto simp: length_clusters_step assigned_index_def split: option.splits)
    with False m' reg ne keep show ?thesis
      by (auto simp: registered_def messages_step_other)
  qed
qed

lemma near_ok_new:
  "t \<le> 1 \<Longrightarrow>
     near_ok t \<lparr>representative = body_normalized m, representative_raw = r, messages = [m]\<rparr>"
  by (simp add: near_ok_def ratio_self)

lemma near_ok_add:
  assumes "near_ok t c"
    and "t \<le> ratio (body_normalized m) (representative c)
         \<or> (\<exists>m0\<in>set (messages c). body_normalized m0 = body_normalized m)"
  shows "near_ok t (add c m)"
proof -
  let ?ms = "messages c"
  have last: "t \<le> ratio (body_normalized m) (representative c)
      \<or> (\<exists>j<length ?ms. body_normalized (?ms ! j) = body_normalized m)"
    using assms(2) by (auto simp: in_set_conv_nth)
  have "t \<le> ratio (body_normalized ((?ms @ [m]) ! i)) (representative c)
      \<or> (\<exists>j<i. body_normalized ((?ms @ [m]) ! j) = body_normalized ((?ms @ [m]) ! i))"
    if "i < length (?ms @ [m])" for i
  proof (cases "i < length ?ms")
    case True
    with assms(1) have "t \<le> ratio (body_normalized (?ms ! i)) (representative c)
      \<or> (\<exists>j<i. body_normalized (?ms ! j) = body_normalized (?ms ! i))"
      by (simp add: near_ok_def)
    then show ?thesis
    proof
      assume "t \<le> ratio (body_normalized (?ms ! i)) (representative c)"
      with True show ?thesis by (simp add: nth_append)
    next
      assume "\<exists>j<i. body_normalized (?ms ! j) = body_normalized (?ms ! i)"
      then obtain j where "j < i" "body_normalized (?ms ! j) = body_normalized (?ms ! i)"
        by blast
      with True have "j < i \<and> body_normalized ((?ms @ [m]) ! j) = body_normalized ((?ms @ [m]) ! i)"
        by (simp add: nth_append)
      then show ?thesis by blast
    qed
  next
    case False
    with that have i: "i = length ?ms" by simp
    from last show ?thesis
    proof
      assume "t \<le> ratio (body_normalized m) (representative c)"
      with i show ?thesis by simp
    next
      assume "\<exists>j<length ?ms. body_normalized (?ms ! j) = body_normalized m"
      then obtain j where "j < length ?ms" "body_normalized (?ms ! j) = body_normalized m"
        by blast
      with i have "j < i \<and> body_normalized ((?ms @ [m]) ! j) = body_normalized ((?ms @ [m]) ! i)"
        by (simp add: nth_append)
      then show ?thesis by blast
    qed
  qed
  then show ?thesis
    by (simp add: near_ok_def add_def)
qed

text \<open>What a round does to the cluster list, cluster by cluster.\<close>

lemma step_cluster_cases:
  assumes ok: "index_ok st" and sh: "\<forall>c\<in>set (clusters st). shape_ok c"
    and c: "c \<in> set (clusters (cluster_step t st m))"
  obtains (old) "c \<in> set (clusters st)"
  | (new) "c = \<lparr>representative = body_normalized m, representative_raw = body m, messages = [m]\<rparr>"
  | (join) c0 where "c0 \<in> set (clusters st)" "c = add c0 m" "body_normalized m \<noteq> []"
      "representative c0 \<noteq> []"
      "t \<le> ratio (body_normalized m) (representative c0)
         \<or> (\<exists>m0\<in>set (messages c0). body_normalized m0 = body_normalized m)"
proof -
  let ?st' = "cluster_step t st m"
  from c obtain k where k: "k < length (clusters ?st')" and ck: "c = clusters ?st' ! k"
    by (auto simp: in_set_conv_nth)
  show thesis
  proof (cases "k = assigned_index st m t")
    case False
    with k ok have "k < length (clusters st)"
      by (auto simp: length_clusters_step assigned_index_def split: option.splits)
    with False ck have "c \<in> set (clusters st)"
      by (simp add: messages_step_other)
    then show thesis by (rule old)
  next
    case True
    show thesis
    proof (cases "assign st m t")
      case None
      with True ck have "c = \<lparr>representative = body_normalized m, representative_raw = body m,
          messages = [m]\<rparr>"
        by (simp add: clusters_step assigned_index_def)
      then show thesis by (rule new)
    next
      case (Some k0)
      with ok have k0: "k0 < length (clusters st)" by (simp add: assign_lt)
      let ?c0 = "clusters st ! k0"
      from k0 sh have c0: "shape_ok ?c0" by simp
      from Some True ck k0 have cc: "c = add ?c0 m"
        by (simp add: clusters_step assigned_index_def)
      from Some have ne: "body_normalized m \<noteq> []"
        using assign_empty[of m st t] by auto
      from assign_cases[OF Some]
      have how: "(exact_index st (body_normalized m) = Some k0)
          \<or> are_similar (body_normalized m) (representative ?c0) t"
        by blast
      have rep: "representative ?c0 \<noteq> []"
      proof
        assume e: "representative ?c0 = []"
        with c0 obtain m1 where m1: "messages ?c0 = [m1]" "body_normalized m1 = []"
          by (auto simp: shape_ok_def)
        from how e have "exact_index st (body_normalized m) = Some k0"
          by auto
        with ok obtain m0 where "m0 \<in> set (messages ?c0)" "body_normalized m0 = body_normalized m"
          unfolding index_ok_def by blast
        with m1 ne show False by simp
      qed
      have near: "t \<le> ratio (body_normalized m) (representative ?c0)
         \<or> (\<exists>m0\<in>set (messages ?c0). body_normalized m0 = body_normalized m)"
        using how
      proof
        assume "exact_index st (body_normalized m) = Some k0"
        with ok show ?thesis unfolding index_ok_def by blast
      next
        assume "are_similar (body_normalized m) (representative ?c0) t"
        then show ?thesis by (simp add: are_similar_iff)
      qed
      from k0 have "?c0 \<in> set (clusters st)" by simp
      then show thesis using cc ne rep near by (rule join)
    qed
  qed
qed

lemma shape_ok_step:
  assumes ok: "index_ok st" and sh: "\<forall>c\<in>set (clusters st). shape_ok c"
  shows "\<forall>c\<in>set (clusters (cluster_step t st m)). shape_ok c"
proof
  fix c
  assume "c \<in> set (clusters (cluster_step t st m))"
  with ok sh show "shape_ok c"
  proof (cases rule: step_cluster_cases)
    case old
    with sh show ?thesis by simp
  next
    case new
    then show ?thesis by (simp add: shape_ok_def)
  next
    case (join c0)
    with sh have "shape_ok c0" by simp
    with join show ?thesis by (simp add: shape_ok_def add_def)
  qed
qed

lemma near_ok_step:
  assumes ok: "index_ok st" and sh: "\<forall>c\<in>set (clusters st). shape_ok c"
    and near: "\<forall>c\<in>set (clusters st). near_ok t c" and t: "t \<le> 1"
  shows "\<forall>c\<in>set (clusters (cluster_step t st m)). near_ok t c"
proof
  fix c
  assume "c \<in> set (clusters (cluster_step t st m))"
  with ok sh show "near_ok t c"
  proof (cases rule: step_cluster_cases)
    case old
    with near show ?thesis by simp
  next
    case new
    with t show ?thesis by (simp add: near_ok_new)
  next
    case (join c0)
    with near have "near_ok t c0" by simp
    from near_ok_add[OF this join(5)] join(2) show ?thesis by simp
  qed
qed

definition loop_inv :: "cluster_state \<Rightarrow> bool" where
  "loop_inv st \<longleftrightarrow> index_ok st \<and> registered st \<and> (\<forall>c\<in>set (clusters st). shape_ok c)"

lemma loop_inv_initial: "loop_inv initial_state"
  by (simp add: loop_inv_def index_ok_def registered_def initial_state_def bucket_of_def)

lemma loop_inv_step:
  assumes "loop_inv st"
  shows "loop_inv (cluster_step t st m)"
proof -
  from assms have a: "index_ok st" "registered st" "\<forall>c\<in>set (clusters st). shape_ok c"
    by (simp_all add: loop_inv_def)
  show ?thesis
    unfolding loop_inv_def
    using index_ok_step[OF a(1)] registered_step[OF a(1,2)] shape_ok_step[OF a(1,3)]
    by blast
qed

lemma loop_inv_foldl: "loop_inv st \<Longrightarrow> loop_inv (foldl (cluster_step t) st msgs)"
proof (induction msgs arbitrary: st)
  case Nil
  then show ?case by simp
next
  case (Cons m msgs)
  from Cons.prems have "loop_inv (cluster_step t st m)"
    by (rule loop_inv_step)
  with Cons show ?case by simp
qed

lemma loop_inv_pass: "loop_inv (cluster_pass msgs t)"
  unfolding cluster_pass_def by (rule loop_inv_foldl[OF loop_inv_initial])

lemma near_ok_foldl:
  "t \<le> 1 \<Longrightarrow> loop_inv st \<Longrightarrow> \<forall>c\<in>set (clusters st). near_ok t c \<Longrightarrow>
     \<forall>c\<in>set (clusters (foldl (cluster_step t) st msgs)). near_ok t c"
proof (induction msgs arbitrary: st)
  case Nil
  then show ?case by simp
next
  case (Cons m msgs)
  from Cons.prems(2) have "loop_inv (cluster_step t st m)"
    by (rule loop_inv_step)
  moreover from Cons.prems have "\<forall>c\<in>set (clusters (cluster_step t st m)). near_ok t c"
    by (intro near_ok_step) (simp_all add: loop_inv_def)
  ultimately show ?case
    using Cons.IH[of "cluster_step t st m"] Cons.prems(1) by simp
qed

lemma near_ok_pass: "t \<le> 1 \<Longrightarrow> \<forall>c\<in>set (clusters (cluster_pass msgs t)). near_ok t c"
  unfolding cluster_pass_def
  by (rule near_ok_foldl[OF _ loop_inv_initial]) (simp_all add: initial_state_def)

lemma set_cluster_messages [simp]:
  "set (cluster_messages msgs t) = set (clusters (cluster_pass msgs t))"
  by (simp add: cluster_messages_def)

subsection \<open>Every message lands in one cluster\<close>

lemma mset_concat_update:
  "k < length xs \<Longrightarrow>
     mset (concat (map f (xs[k := y]))) + mset (f (xs ! k)) = mset (concat (map f xs)) + mset (f y)"
proof (induction xs arbitrary: k)
  case Nil
  then show ?case by simp
next
  case (Cons x xs)
  show ?case
  proof (cases k)
    case 0
    then show ?thesis by simp
  next
    case (Suc k')
    with Cons.prems have "k' < length xs" by simp
    from Cons.IH[OF this] Suc show ?thesis
      by (simp add: add.assoc)
  qed
qed

lemma mset_members_step:
  assumes "index_ok st"
  shows "mset (concat (map messages (clusters (cluster_step t st m))))
           = add_mset m (mset (concat (map messages (clusters st))))"
proof (cases "assign st m t")
  case None
  then show ?thesis by (simp add: clusters_step)
next
  case (Some k)
  with assms have k: "k < length (clusters st)" by (simp add: assign_lt)
  from mset_concat_update[OF k, of messages "add (clusters st ! k) m"]
  show ?thesis
    using Some by (simp add: clusters_step add_def)
qed

lemma mset_members_foldl:
  "loop_inv st \<Longrightarrow>
     mset (concat (map messages (clusters (foldl (cluster_step t) st msgs))))
       = mset (concat (map messages (clusters st))) + mset msgs"
proof (induction msgs arbitrary: st)
  case Nil
  then show ?case by simp
next
  case (Cons m msgs)
  from Cons.prems have "loop_inv (cluster_step t st m)" by (rule loop_inv_step)
  from Cons.IH[OF this] Cons.prems show ?case
    by (simp add: mset_members_step loop_inv_def)
qed

lemma mset_members_pass:
  "mset (concat (map messages (clusters (cluster_pass msgs t)))) = mset msgs"
  unfolding cluster_pass_def
  using mset_members_foldl[OF loop_inv_initial, of t msgs] by (simp add: initial_state_def)

lemma mset_cluster_messages:
  "mset (cluster_messages msgs t) = mset (clusters (cluster_pass msgs t))"
  by (simp add: cluster_messages_def)

lemma mset_concat_perm:
  "mset xs = mset ys \<Longrightarrow> mset (concat (map f xs)) = mset (concat (map f ys))"
proof -
  assume "mset xs = mset ys"
  then have "mset (map (\<lambda>x. mset (f x)) xs) = mset (map (\<lambda>x. mset (f x)) ys)"
    by simp
  then have "sum_mset (mset (map (\<lambda>x. mset (f x)) xs)) = sum_mset (mset (map (\<lambda>x. mset (f x)) ys))"
    by (rule arg_cong)
  then show ?thesis
    by (simp add: mset_concat sum_mset_sum_list comp_def del: mset_map)
qed

lemma mset_members_cluster_messages:
  "mset (concat (map messages (cluster_messages msgs t))) = mset msgs"
  using mset_concat_perm[OF mset_cluster_messages, of messages msgs t]
  by (simp add: mset_members_pass)

lemma sum_total_cluster_messages:
  "sum_list (map total_of (cluster_messages msgs t)) = length msgs"
proof -
  have "size (mset (concat (map messages (cluster_messages msgs t)))) = size (mset msgs)"
    by (simp only: mset_members_cluster_messages)
  then show ?thesis
    by (simp add: length_concat total_of_def[abs_def] comp_def)
qed

lemma count_concat_one:
  "count (mset (concat xss)) x = 1 \<Longrightarrow> \<exists>!k. k < length xss \<and> x \<in> set (xss ! k)"
proof (induction xss)
  case Nil
  then show ?case by simp
next
  case (Cons xs xss)
  show ?case
  proof (cases "x \<in> set xs")
    case True
    then have "count (mset xs) x \<noteq> 0"
      by (simp add: count_eq_zero_iff)
    moreover from Cons.prems have "count (mset xs) x + count (mset (concat xss)) x = 1"
      by simp
    ultimately have "count (mset (concat xss)) x = 0"
      by arith
    then have "x \<notin> set (concat xss)"
      by (simp add: count_eq_zero_iff)
    then have "\<forall>k<length xss. x \<notin> set (xss ! k)"
      by (metis in_set_conv_nth UN_I set_concat)
    with True show ?thesis
      by (intro ex1I[of _ 0]) (auto simp: nth_Cons split: nat.splits)
  next
    case False
    then have "count (mset xs) x = 0"
      by (simp add: count_eq_zero_iff)
    moreover from Cons.prems have "count (mset xs) x + count (mset (concat xss)) x = 1"
      by simp
    ultimately have "count (mset (concat xss)) x = 1"
      by arith
    from Cons.IH[OF this] obtain k where k: "k < length xss" "x \<in> set (xss ! k)"
      and u: "\<And>k'. k' < length xss \<Longrightarrow> x \<in> set (xss ! k') \<Longrightarrow> k' = k"
      by blast
    show ?thesis
    proof (intro ex1I[of _ "Suc k"])
      show "Suc k < length (xs # xss) \<and> x \<in> set ((xs # xss) ! Suc k)"
        using k by simp
    next
      fix k'
      assume a: "k' < length (xs # xss) \<and> x \<in> set ((xs # xss) ! k')"
      with False obtain k'' where "k' = Suc k''"
        by (cases k') auto
      with a u[of k''] show "k' = Suc k" by simp
    qed
  qed
qed

section \<open>Claims about the clustering\<close>

text \<open>Messages used to instantiate the theorems below: a raw body and its normalized body.\<close>

definition example_message :: "string \<Rightarrow> string \<Rightarrow> Message" where
  "example_message raw normalized =
     \<lparr>source_file = ascii ''relatorio.xlsx'', body = ascii raw, body_normalized = ascii normalized,
      status_raw = ascii ''delivered'', status_mapped = ascii ''Entregue'', date = None,
      metadata = []\<rparr>"

text \<open>
  C1. With a threshold of at most 1 (the contract of the clusterer, checked by \<open>main\<close>),
  every member of every returned cluster has full ratio at least the threshold against
  the representative, or repeats the normalized body of an earlier member of the same
  cluster; and a cluster with a non-empty representative has no member with an empty
  normalized body.
\<close>

theorem cluster_members_near_representative:
  assumes "t \<le> 1" and "c \<in> set (cluster_messages msgs t)"
  shows "(\<forall>i<length (messages c).
            t \<le> ratio (body_normalized (messages c ! i)) (representative c)
            \<or> (\<exists>j<i. body_normalized (messages c ! j) = body_normalized (messages c ! i)))
    \<and> (representative c \<noteq> [] \<longrightarrow> (\<forall>m\<in>set (messages c). body_normalized m \<noteq> []))"
proof -
  from assms have "near_ok t c"
    using near_ok_pass[of t msgs] by simp
  moreover from assms(2) have "shape_ok c"
    using loop_inv_pass[of msgs t] by (simp add: loop_inv_def)
  ultimately show ?thesis
    by (simp add: near_ok_def shape_ok_def)
qed

theorem cluster_members_near_representative_witness:
  "(1 / 2 :: rat) \<le> 1
   \<and> \<lparr>representative = ascii ''ab'', representative_raw = ascii ''ab'',
       messages = [example_message ''ab'' ''ab'', example_message ''Ca!'' ''ca'',
                   example_message ''ca'' ''ca'']\<rparr>
      \<in> set (cluster_messages
          [example_message ''ab'' ''ab'', example_message ''Ca!'' ''ca'',
           example_message ''ca'' ''ca''] (1 / 2))
   \<and> 1 / 2 \<le> ratio (ascii ''ca'') (ascii ''ab'')"
proof -
  let ?msgs = "[example_message ''ab'' ''ab'', example_message ''Ca!'' ''ca'',
    example_message ''ca'' ''ca'']"
  let ?c = "\<lparr>representative = ascii ''ab'', representative_raw = ascii ''ab'', messages = ?msgs\<rparr>"
  have run: "cluster_messages ?msgs (1 / 2) = [?c]"
    by code_simp
  then have mem: "?c \<in> set (cluster_messages ?msgs (1 / 2))"
    by simp
  have t: "(1 / 2 :: rat) \<le> 1"
    by simp
  note second = cluster_members_near_representative[OF t mem, THEN conjunct1, rule_format, of 1]
  have "1 / 2 \<le> ratio (ascii ''ca'') (ascii ''ab'')"
    using second by (simp add: example_message_def ascii_def)
  with t mem show ?thesis
    by blast
qed

text \<open>
  C2, as stated, fails: two messages with empty normalized bodies end up in two
  clusters, not in one shared cluster.
\<close>

theorem empty_bodies_not_shared_counterexample:
  "cluster_messages [example_message ''!!!'' '''', example_message ''???'' ''''] (rnd (7 / 10))
   = [\<lparr>representative = [], representative_raw = ascii ''!!!'',
       messages = [example_message ''!!!'' '''']\<rparr>,
      \<lparr>representative = [], representative_raw = ascii ''???'',
       messages = [example_message ''???'' '''']\<rparr>]"
  by code_simp

text \<open>
  C2, amended. A message with an empty normalized body never matches an existing
  cluster, whatever the loop state and the threshold: it always opens a new cluster,
  whose representative is the empty string, and stays the only member of that cluster.
\<close>

theorem empty_body_message_alone:
  assumes "body_normalized m = []"
  shows "assign st m t = None
    \<and> (c \<in> set (cluster_messages msgs t) \<and> m \<in> set (messages c)
         \<longrightarrow> messages c = [m] \<and> representative c = [])"
proof -
  have "messages c = [m] \<and> representative c = []"
    if c: "c \<in> set (cluster_messages msgs t)" and m: "m \<in> set (messages c)"
  proof -
    from c have sh: "shape_ok c"
      using loop_inv_pass[of msgs t] by (simp add: loop_inv_def)
    with m assms have "representative c = []"
      by (auto simp: shape_ok_def)
    with sh m show ?thesis
      by (auto simp: shape_ok_def)
  qed
  with assms show ?thesis
    by (simp add: assign_empty)
qed

theorem empty_body_message_alone_witness:
  "body_normalized (example_message ''???'' '''') = []
   \<and> \<lparr>representative = [], representative_raw = ascii ''???'',
       messages = [example_message ''???'' '''']\<rparr>
      \<in> set (cluster_messages [example_message ''!!!'' '''', example_message ''???'' ''''] (rnd (7 / 10)))
   \<and> assign initial_state (example_message ''???'' '''') (rnd (7 / 10)) = None
   \<and> messages \<lparr>representative = [], representative_raw = ascii ''???'',
       messages = [example_message ''???'' '''']\<rparr> = [example_message ''???'' '''']"
proof -
  let ?m = "example_message ''???'' ''''"
  let ?c = "\<lparr>representative = [], representative_raw = ascii ''???'', messages = [?m]\<rparr>"
  let ?msgs = "[example_message ''!!!'' '''', ?m]"
  have e: "body_normalized ?m = []"
    by (simp add: example_message_def ascii_def)
  have mem: "?c \<in> set (cluster_messages ?msgs (rnd (7 / 10)))"
    by code_simp
  have m: "?m \<in> set (messages ?c)"
    by simp
  from empty_body_message_alone[OF e, of initial_state "rnd (7 / 10)" ?c ?msgs] e mem m show ?thesis
    by blast
qed

text \<open>
  C5, as stated, fails: the same four messages give three clusters at threshold 1/2
  and two clusters at threshold 3/4.
\<close>

theorem threshold_monotonicity_counterexample:
  "length (cluster_messages
      [example_message ''ab'' ''ab'', example_message ''ca'' ''ca'',
       example_message ''cba'' ''cba'', example_message ''aca'' ''aca''] (1 / 2)) = 3
   \<and> length (cluster_messages
      [example_message ''ab'' ''ab'', example_message ''ca'' ''ca'',
       example_message ''cba'' ''cba'', example_message ''aca'' ''aca''] (3 / 4)) = 2"
  by code_simp

text \<open>
  C5, amended. For thresholds \<open>t1 \<le> t2\<close>: a pair that the similarity test accepts at
  \<open>t2\<close> is accepted at \<open>t1\<close>; from one and the same loop state, a message that is
  assigned to an existing cluster at \<open>t2\<close> is assigned to an existing cluster at \<open>t1\<close>;
  and for every input of at most three messages the number of clusters at \<open>t2\<close> is at
  least the number at \<open>t1\<close>. From four messages on the number can drop, as above.
\<close>

lemma length_skip_mono:
  assumes "t1 \<le> t2" "length_skip n r t1"
  shows "length_skip n r t2"
proof -
  from assms(1) have "rnd (t1 - rnd (15 / 100)) \<le> rnd (t2 - rnd (15 / 100))"
    by (intro rnd_mono) simp
  with assms(2) show ?thesis
    by (auto simp: length_skip_def Let_def)
qed

lemma are_similar_antitone: "t1 \<le> t2 \<Longrightarrow> are_similar a b t2 \<Longrightarrow> are_similar a b t1"
  by (auto simp: are_similar_iff)

lemma find_SomeD: "find P xs = Some x \<Longrightarrow> x \<in> set xs \<and> P x"
  by (auto simp: find_Some_iff)

lemma assign_None_iff:
  "assign st m t = None \<longleftrightarrow>
     (body_normalized m = [] \<or> exact_index st (body_normalized m) = None)
     \<and> (\<forall>k\<in>set (bucket_of (prefix_index st) (take 40 (body_normalized m))).
            \<not> are_similar (body_normalized m) (representative (clusters st ! k)) t)
     \<and> (\<forall>k<length (clusters st).
            k \<in> set (bucket_of (prefix_index st) (take 40 (body_normalized m)))
            \<or> length_skip (body_normalized m) (representative (clusters st ! k)) t
            \<or> \<not> are_similar (body_normalized m) (representative (clusters st ! k)) t)"
  by (auto simp: assign_def Let_def scan_candidates_def scan_clusters_def find_None_iff
      split: option.splits dest: find_SomeD)

lemma assign_antitone:
  assumes t: "t1 \<le> t2" and none: "assign st m t1 = None"
  shows "assign st m t2 = None"
proof -
  let ?n = "body_normalized m"
  let ?cand = "set (bucket_of (prefix_index st) (take 40 ?n))"
  note n = none[unfolded assign_None_iff]
  from n have a: "?n = [] \<or> exact_index st ?n = None"
    by (rule conjunct1)
  from n have b: "\<forall>k\<in>?cand. \<not> are_similar ?n (representative (clusters st ! k)) t1"
    by (rule conjunct2[THEN conjunct1])
  from n have c: "\<forall>k<length (clusters st). k \<in> ?cand
            \<or> length_skip ?n (representative (clusters st ! k)) t1
            \<or> \<not> are_similar ?n (representative (clusters st ! k)) t1"
    by (rule conjunct2[THEN conjunct2])
  from b have b': "\<forall>k\<in>?cand. \<not> are_similar ?n (representative (clusters st ! k)) t2"
    using are_similar_antitone[OF t] by blast
  from c have c': "\<forall>k<length (clusters st). k \<in> ?cand
            \<or> length_skip ?n (representative (clusters st ! k)) t2
            \<or> \<not> are_similar ?n (representative (clusters st ! k)) t2"
    using are_similar_antitone[OF t] length_skip_mono[OF t] by blast
  show ?thesis
    unfolding assign_None_iff by (intro conjI a b' c')
qed

lemma assign_initial: "assign initial_state m t = None"
  by (simp add: assign_None_iff initial_state_def bucket_of_def)

lemma cluster_step_initial:
  "cluster_step t1 initial_state m = cluster_step t2 initial_state m"
  by (simp add: cluster_step_def assign_initial Let_def)

lemma cluster_step_cong:
  "assign st m t1 = assign st m t2 \<Longrightarrow> cluster_step t1 st m = cluster_step t2 st m"
  by (simp add: cluster_step_def Let_def)

lemma length_step_eq:
  "index_ok st \<Longrightarrow>
     length (clusters (cluster_step t st m))
       = length (clusters st) + (if assign st m t = None then 1 else 0)"
  by (auto simp: length_clusters_step)

lemma step_count_mono:
  assumes "index_ok st" "t1 \<le> t2"
  shows "length (clusters (cluster_step t1 st m)) \<le> length (clusters (cluster_step t2 st m))"
  using assign_antitone[OF assms(2), of st m]
  by (auto simp: length_step_eq[OF assms(1)])

lemma cluster_pass_snoc:
  "cluster_pass (msgs @ [m]) t = cluster_step t (cluster_pass msgs t) m"
  by (simp add: cluster_pass_def)

lemma index_ok_pass: "index_ok (cluster_pass msgs t)"
  using loop_inv_pass[of msgs t] by (simp add: loop_inv_def)

lemma length_cluster_messages:
  "length (cluster_messages msgs t) = length (clusters (cluster_pass msgs t))"
  by (simp add: cluster_messages_def)

lemma pass_one: "cluster_pass [m1] t1 = cluster_pass [m1] t2"
  by (simp add: cluster_pass_def cluster_step_initial[of t1 _ t2])

lemma count_mono_same_state:
  assumes "t1 \<le> t2" "cluster_pass msgs t1 = cluster_pass msgs t2"
  shows "length (clusters (cluster_pass (msgs @ [m]) t1))
           \<le> length (clusters (cluster_pass (msgs @ [m]) t2))"
  unfolding cluster_pass_snoc assms(2)
  by (rule step_count_mono[OF index_ok_pass assms(1)])

lemma count_mono_three:
  assumes t: "t1 \<le> t2"
  shows "length (clusters (cluster_pass [m1, m2, m3] t1))
           \<le> length (clusters (cluster_pass [m1, m2, m3] t2))"
proof -
  let ?S = "cluster_pass [m1] t1"
  have two: "cluster_pass [m1, m2] t = cluster_step t ?S m2" for t
    using cluster_pass_snoc[of "[m1]" m2 t] pass_one[of m1 t t1] by simp
  have three: "cluster_pass [m1, m2, m3] t = cluster_step t (cluster_pass [m1, m2] t) m3" for t
    using cluster_pass_snoc[of "[m1, m2]" m3 t] by simp
  have okS: "index_ok ?S"
    by (rule index_ok_pass)
  show ?thesis
  proof (cases "assign ?S m2 t1 = assign ?S m2 t2")
    case True
    then have "cluster_pass [m1, m2] t1 = cluster_pass [m1, m2] t2"
      unfolding two by (rule cluster_step_cong)
    from count_mono_same_state[OF t this, of m3] show ?thesis
      by simp
  next
    case False
    have lenS: "length (clusters ?S) = 1"
    proof -
      have "index_ok initial_state"
        using loop_inv_initial by (simp add: loop_inv_def)
      from length_step_eq[OF this, of t1 m1]
      have "length (clusters (cluster_step t1 initial_state m1)) = length (clusters initial_state) + 1"
        by (simp add: assign_initial)
      moreover have "clusters initial_state = []"
        by (simp add: initial_state_def)
      ultimately show ?thesis
        by (simp add: cluster_pass_def)
    qed
    have a1: "assign ?S m2 t1 \<noteq> None"
    proof
      assume n: "assign ?S m2 t1 = None"
      with assign_antitone[OF t n] False show False
        by simp
    qed
    then obtain k where k: "assign ?S m2 t1 = Some k"
      by blast
    have a2: "assign ?S m2 t2 = None"
    proof (rule ccontr)
      assume "assign ?S m2 t2 \<noteq> None"
      then obtain k' where k': "assign ?S m2 t2 = Some k'"
        by blast
      from assign_lt[OF okS k] assign_lt[OF okS k'] lenS have "k = k'"
        by simp
      with k k' False show False
        by simp
    qed
    note a = a1 a2
    have l1: "length (clusters (cluster_pass [m1, m2] t1)) = length (clusters ?S)"
      unfolding two using a(1) by (simp add: length_step_eq[OF okS])
    have l2: "length (clusters (cluster_pass [m1, m2] t2)) = length (clusters ?S) + 1"
      unfolding two using a(2) by (simp add: length_step_eq[OF okS])
    have "length (clusters (cluster_pass [m1, m2, m3] t1)) \<le> length (clusters ?S) + 1"
      unfolding three by (simp add: length_step_eq[OF index_ok_pass] l1)
    moreover have "length (clusters ?S) + 1 \<le> length (clusters (cluster_pass [m1, m2, m3] t2))"
      unfolding three by (simp add: length_step_eq[OF index_ok_pass] l2)
    ultimately show ?thesis
      by simp
  qed
qed

lemma list_upto_three:
  assumes "length xs \<le> 3"
  shows "xs = [] \<or> (\<exists>a. xs = [a]) \<or> (\<exists>a b. xs = [a, b]) \<or> (\<exists>a b c. xs = [a, b, c])"
proof (cases xs)
  case Nil
  then show ?thesis by simp
next
  case (Cons a r1)
  show ?thesis
  proof (cases r1)
    case Nil
    with Cons show ?thesis by simp
  next
    case (Cons b r2)
    note c2 = this
    show ?thesis
    proof (cases r2)
      case Nil
      with \<open>xs = a # r1\<close> c2 show ?thesis by simp
    next
      case (Cons c r3)
      with assms \<open>xs = a # r1\<close> c2 have "r3 = []"
        by simp
      with Cons \<open>xs = a # r1\<close> c2 show ?thesis by simp
    qed
  qed
qed

lemma count_mono_upto_three:
  assumes t: "t1 \<le> t2" and n: "length msgs \<le> 3"
  shows "length (cluster_messages msgs t1) \<le> length (cluster_messages msgs t2)"
proof -
  from n consider "msgs = []" | m1 where "msgs = [m1]" | m1 m2 where "msgs = [m1, m2]"
    | m1 m2 m3 where "msgs = [m1, m2, m3]"
    using list_upto_three[of msgs] by blast
  then show ?thesis
  proof cases
    case 1
    then show ?thesis by (simp add: length_cluster_messages cluster_pass_def)
  next
    case 2
    then show ?thesis by (simp add: length_cluster_messages pass_one[of m1 t1 t2])
  next
    case 3
    from count_mono_same_state[OF t pass_one[of m1 t1 t2], of m2] 3 show ?thesis
      by (simp add: length_cluster_messages)
  next
    case 4
    with count_mono_three[OF t, of m1 m2 m3] show ?thesis
      by (simp add: length_cluster_messages)
  qed
qed

theorem threshold_monotone_up_to_three:
  assumes "t1 \<le> t2"
  shows "(are_similar a b t2 \<longrightarrow> are_similar a b t1)
    \<and> (assign st m t2 \<noteq> None \<longrightarrow> assign st m t1 \<noteq> None)
    \<and> (length msgs \<le> 3 \<longrightarrow>
          length (cluster_messages msgs t1) \<le> length (cluster_messages msgs t2))"
proof -
  have "length msgs \<le> 3 \<longrightarrow>
      length (cluster_messages msgs t1) \<le> length (cluster_messages msgs t2)"
    using count_mono_upto_three[OF assms] by blast
  moreover have "are_similar a b t2 \<longrightarrow> are_similar a b t1"
    using are_similar_antitone[OF assms, of a b] by blast
  moreover have "assign st m t2 \<noteq> None \<longrightarrow> assign st m t1 \<noteq> None"
  proof (intro impI notI)
    assume hi: "assign st m t2 \<noteq> None" and lo: "assign st m t1 = None"
    from assign_antitone[OF assms lo] hi show False
      by simp
  qed
  ultimately show ?thesis
    by (intro conjI)
qed

text \<open>
  C7. The returned list is in descending order of member count, and clusters with the
  same count keep the order in which the loop created them (the order of \<open>clusters\<close>
  after the pass).
\<close>

theorem clusters_sorted_descending_stable:
  "sorted_wrt (\<lambda>c c'. total_of c' \<le> total_of c) (cluster_messages msgs t)
   \<and> (\<forall>n. filter (\<lambda>c. total_of c = n) (cluster_messages msgs t)
           = filter (\<lambda>c. total_of c = n) (clusters (cluster_pass msgs t)))"
proof -
  let ?cs = "clusters (cluster_pass msgs t)"
  have "sorted (map total_of (sort_key total_of (rev ?cs)))"
    by (rule sorted_sort_key)
  then have "sorted_wrt (\<lambda>c c'. total_of c \<le> total_of c') (sort_key total_of (rev ?cs))"
    by (simp add: sorted_map)
  then have a: "sorted_wrt (\<lambda>c c'. total_of c' \<le> total_of c) (cluster_messages msgs t)"
    by (simp add: cluster_messages_def sorted_wrt_rev)
  have b: "filter (\<lambda>c. total_of c = n) (cluster_messages msgs t)
           = filter (\<lambda>c. total_of c = n) ?cs" for n
    by (simp add: cluster_messages_def rev_filter[symmetric] sort_key_stable)
  from a b show ?thesis by blast
qed

theorem threshold_monotone_up_to_three_witness:
  "(1 / 2 :: rat) \<le> 3 / 4
   \<and> are_similar (ascii ''cba'') (ascii ''ca'') (3 / 4)
   \<and> are_similar (ascii ''cba'') (ascii ''ca'') (1 / 2)
   \<and> assign (cluster_pass [example_message ''ca'' ''ca''] (1 / 2))
        (example_message ''cba'' ''cba'') (3 / 4) \<noteq> None
   \<and> assign (cluster_pass [example_message ''ca'' ''ca''] (1 / 2))
        (example_message ''cba'' ''cba'') (1 / 2) \<noteq> None
   \<and> length [example_message ''ab'' ''ab'', example_message ''ca'' ''ca'',
              example_message ''cba'' ''cba''] \<le> 3
   \<and> length (cluster_messages [example_message ''ab'' ''ab'', example_message ''ca'' ''ca'',
         example_message ''cba'' ''cba''] (1 / 2))
       \<le> length (cluster_messages [example_message ''ab'' ''ab'', example_message ''ca'' ''ca'',
         example_message ''cba'' ''cba''] (3 / 4))"
proof -
  let ?msgs = "[example_message ''ab'' ''ab'', example_message ''ca'' ''ca'',
    example_message ''cba'' ''cba'']"
  let ?st = "cluster_pass [example_message ''ca'' ''ca''] (1 / 2)"
  have t: "(1 / 2 :: rat) \<le> 3 / 4"
    by simp
  have hi: "are_similar (ascii ''cba'') (ascii ''ca'') (3 / 4)"
    by code_simp
  have st: "assign ?st (example_message ''cba'' ''cba'') (3 / 4) \<noteq> None"
    by code_simp
  have n: "length ?msgs \<le> 3"
    by simp
  note T = threshold_monotone_up_to_three[OF t, of "ascii ''cba''" "ascii ''ca''" ?st
      "example_message ''cba'' ''cba''" ?msgs]
  note c1 = T[THEN conjunct1, THEN mp, OF hi]
  note c2 = T[THEN conjunct2, THEN conjunct1, THEN mp, OF st]
  note c3 = T[THEN conjunct2, THEN conjunct2, THEN mp, OF n]
  show ?thesis
    by (intro conjI t hi c1 st c2 n c3)
qed

subsection \<open>Identical normalized bodies\<close>

definition disjoint_bodies :: "MessageCluster \<Rightarrow> MessageCluster \<Rightarrow> bool" where
  "disjoint_bodies c c' \<longleftrightarrow>
     (\<forall>m\<in>set (messages c). \<forall>m'\<in>set (messages c').
        body_normalized m = body_normalized m' \<longrightarrow> body_normalized m = [])"

lemma disjoint_bodies_sym: "disjoint_bodies c c' \<Longrightarrow> disjoint_bodies c' c"
  unfolding disjoint_bodies_def by metis

lemma registered_disjoint:
  assumes "registered st"
  shows "sorted_wrt disjoint_bodies (clusters st)"
  unfolding sorted_wrt_iff_nth_less
proof (intro allI impI)
  fix i j
  assume ij: "i < j" "j < length (clusters st)"
  show "disjoint_bodies (clusters st ! i) (clusters st ! j)"
    unfolding disjoint_bodies_def
  proof (intro ballI impI)
    fix m m'
    assume m: "m \<in> set (messages (clusters st ! i))" and m': "m' \<in> set (messages (clusters st ! j))"
      and eq: "body_normalized m = body_normalized m'"
    show "body_normalized m = []"
    proof (rule ccontr)
      assume ne: "body_normalized m \<noteq> []"
      with assms ij m have "exact_index st (body_normalized m) = Some i"
        by (simp add: registered_def)
      moreover from ne eq assms ij m' have "exact_index st (body_normalized m) = Some j"
        by (simp add: registered_def)
      ultimately show False using ij by simp
    qed
  qed
qed

lemma sorted_wrt_insort_key_sym:
  "sorted_wrt D xs \<Longrightarrow> \<forall>y\<in>set xs. D x y \<and> D y x \<Longrightarrow> sorted_wrt D (insort_key f x xs)"
  by (induction xs) (auto simp: set_insort_key)

lemma sorted_wrt_sort_key_sym:
  assumes sym: "\<And>x y. D x y \<Longrightarrow> D y x"
  shows "sorted_wrt D xs \<Longrightarrow> sorted_wrt D (sort_key f xs)"
proof (induction xs)
  case Nil
  then show ?case by simp
next
  case (Cons x xs)
  then have s: "sorted_wrt D (sort_key f xs)" and d: "\<forall>y\<in>set xs. D x y"
    by simp_all
  from d have "\<forall>y\<in>set (sort_key f xs). D x y \<and> D y x"
    by (auto intro: sym)
  with s have "sorted_wrt D (insort_key f x (sort_key f xs))"
    by (rule sorted_wrt_insort_key_sym)
  then show ?case
    by simp
qed

lemma sorted_wrt_rev_sym:
  assumes sym: "\<And>x y. D x y \<Longrightarrow> D y x"
  shows "sorted_wrt D xs \<Longrightarrow> sorted_wrt D (rev xs)"
proof -
  assume "sorted_wrt D xs"
  then have "sorted_wrt (\<lambda>x y. D y x) xs"
    by (rule sorted_wrt_mono_rel[rotated]) (rule sym)
  then show ?thesis
    by (simp add: sorted_wrt_rev)
qed

lemma cluster_messages_disjoint:
  "sorted_wrt disjoint_bodies (cluster_messages msgs t)"
proof -
  have "registered (cluster_pass msgs t)"
    using loop_inv_pass[of msgs t] by (simp add: loop_inv_def)
  then have "sorted_wrt disjoint_bodies (clusters (cluster_pass msgs t))"
    by (rule registered_disjoint)
  then have "sorted_wrt disjoint_bodies (rev (clusters (cluster_pass msgs t)))"
    by (rule sorted_wrt_rev_sym[rotated]) (rule disjoint_bodies_sym)
  then have "sorted_wrt disjoint_bodies (sort_key total_of (rev (clusters (cluster_pass msgs t))))"
    by (rule sorted_wrt_sort_key_sym[rotated]) (rule disjoint_bodies_sym)
  then show ?thesis
    unfolding cluster_messages_def
    by (rule sorted_wrt_rev_sym[rotated]) (rule disjoint_bodies_sym)
qed

text \<open>
  C10. Two messages with the same non-empty normalized body are members of the same
  returned cluster, whether or not that body is the cluster's representative; and after
  the pass the exact-match index maps the non-empty normalized body of every member of
  every cluster to that cluster.
\<close>

theorem same_body_same_cluster:
  assumes "i < length (cluster_messages msgs t)" "j < length (cluster_messages msgs t)"
    and "m1 \<in> set (messages (cluster_messages msgs t ! i))"
    and "m2 \<in> set (messages (cluster_messages msgs t ! j))"
    and "body_normalized m1 = body_normalized m2" "body_normalized m1 \<noteq> []"
  shows "i = j
    \<and> (\<forall>k<length (clusters (cluster_pass msgs t)).
          \<forall>m\<in>set (messages (clusters (cluster_pass msgs t) ! k)).
            body_normalized m \<noteq> [] \<longrightarrow>
            exact_index (cluster_pass msgs t) (body_normalized m) = Some k)"
proof -
  let ?out = "cluster_messages msgs t"
  have d: "disjoint_bodies (?out ! a) (?out ! b)" if "a < b" "b < length ?out" for a b
    using cluster_messages_disjoint[of msgs t] that by (simp add: sorted_wrt_iff_nth_less)
  have "i = j"
  proof (rule ccontr)
    assume "i \<noteq> j"
    then consider "i < j" | "j < i"
      by arith
    then have "disjoint_bodies (?out ! i) (?out ! j)"
    proof cases
      case 1
      from 1 assms(2) show ?thesis by (rule d)
    next
      case 2
      from 2 assms(1) have "disjoint_bodies (?out ! j) (?out ! i)" by (rule d)
      then show ?thesis by (rule disjoint_bodies_sym)
    qed
    with assms(3-6) show False
      by (auto simp: disjoint_bodies_def)
  qed
  moreover have "registered (cluster_pass msgs t)"
    using loop_inv_pass[of msgs t] by (simp add: loop_inv_def)
  ultimately show ?thesis
    by (simp add: registered_def)
qed

theorem same_body_same_cluster_witness:
  "cluster_messages
     [example_message ''ab'' ''ab'', example_message ''Ca!'' ''ca'', example_message ''xyz'' ''xyz'',
      example_message ''ca'' ''ca''] (1 / 2)
   = [\<lparr>representative = ascii ''ab'', representative_raw = ascii ''ab'',
       messages = [example_message ''ab'' ''ab'', example_message ''Ca!'' ''ca'',
                   example_message ''ca'' ''ca'']\<rparr>,
      \<lparr>representative = ascii ''xyz'', representative_raw = ascii ''xyz'',
       messages = [example_message ''xyz'' ''xyz'']\<rparr>]
   \<and> exact_index (cluster_pass
        [example_message ''ab'' ''ab'', example_message ''Ca!'' ''ca'', example_message ''xyz'' ''xyz'',
         example_message ''ca'' ''ca''] (1 / 2)) (ascii ''ca'') = Some 0"
proof -
  let ?msgs = "[example_message ''ab'' ''ab'', example_message ''Ca!'' ''ca'',
    example_message ''xyz'' ''xyz'', example_message ''ca'' ''ca'']"
  let ?c0 = "\<lparr>representative = ascii ''ab'', representative_raw = ascii ''ab'',
       messages = [example_message ''ab'' ''ab'', example_message ''Ca!'' ''ca'',
                   example_message ''ca'' ''ca'']\<rparr>"
  let ?c1 = "\<lparr>representative = ascii ''xyz'', representative_raw = ascii ''xyz'',
       messages = [example_message ''xyz'' ''xyz'']\<rparr>"
  have run: "cluster_messages ?msgs (1 / 2) = [?c0, ?c1]"
    by code_simp
  have pre: "clusters (cluster_pass ?msgs (1 / 2)) = [?c0, ?c1]"
    by code_simp
  have i: "0 < length (cluster_messages ?msgs (1 / 2))"
    by (simp add: run)
  have m1: "example_message ''Ca!'' ''ca'' \<in> set (messages (cluster_messages ?msgs (1 / 2) ! 0))"
    and m2: "example_message ''ca'' ''ca'' \<in> set (messages (cluster_messages ?msgs (1 / 2) ! 0))"
    by (simp_all add: run)
  have eq: "body_normalized (example_message ''Ca!'' ''ca'') = body_normalized (example_message ''ca'' ''ca'')"
    and ne: "body_normalized (example_message ''Ca!'' ''ca'') \<noteq> []"
    by (simp_all add: example_message_def ascii_def)
  have k: "0 < length (clusters (cluster_pass ?msgs (1 / 2)))"
    by (simp add: pre)
  have mm: "example_message ''ca'' ''ca'' \<in> set (messages (clusters (cluster_pass ?msgs (1 / 2)) ! 0))"
    by (simp add: pre)
  have bb: "body_normalized (example_message ''ca'' ''ca'') = ascii ''ca''"
    by (simp add: example_message_def)
  have nn: "body_normalized (example_message ''ca'' ''ca'') \<noteq> []"
    by (simp add: example_message_def ascii_def)
  note reg = same_body_same_cluster[OF i i m1 m2 eq ne, THEN conjunct2, rule_format, OF k mm nn]
  have "exact_index (cluster_pass ?msgs (1 / 2)) (ascii ''ca'') = Some 0"
    using reg unfolding bb .
  with run show ?thesis
    by simp
qed

end
